theory Spec2Isabelle
  imports Complex_Main
begin

section \<open>Python values: errors, characters, list access\<close>

text \<open>
  The development embeds \<^verbatim>\<open>aalchem/data/strings.py\<close> and
  \<^verbatim>\<open>aalchem/data/alignment.py\<close>.  A Python string is a list of characters; one
  \<^typ>\<open>char\<close> stands for one code point below 256, so \<^const>\<open>length\<close> counts what
  Python's \<^verbatim>\<open>len\<close> counts.  Code points from 256 on (the typographic quotes and
  dashes of \<^verbatim>\<open>PUNCTUATION_MARKS\<close>, the Lithuanian letters of
  \<^verbatim>\<open>WORD_PATTERN\<close>) are outside this character type.  Scores are rational numbers:
  the sums, the quotient \<^verbatim>\<open>len(lcs) / max_len\<close> and the comparisons of the source
  are taken exactly.
\<close>

datatype error = IndexError | ZeroDivisionError | ValueError

type_synonym addr = nat

text \<open>\<^verbatim>\<open>xs[i]\<close> for an index that is never negative.\<close>

definition py_nth :: "'a list \<Rightarrow> nat \<Rightarrow> error + 'a" where
  "py_nth xs i = (if i < length xs then Inr (xs ! i) else Inl IndexError)"

text \<open>\<^verbatim>\<open>m[i][j]\<close>.\<close>

definition py_nth2 :: "'a list list \<Rightarrow> nat \<Rightarrow> nat \<Rightarrow> error + 'a" where
  "py_nth2 m i j = (case py_nth m i of Inl e \<Rightarrow> Inl e | Inr r \<Rightarrow> py_nth r j)"

text \<open>\<^verbatim>\<open>xs[a:b]\<close>, with Python's treatment of negative and too large bounds.\<close>

definition py_slice :: "'a list \<Rightarrow> int \<Rightarrow> int \<Rightarrow> 'a list" where
  "py_slice xs a b =
     (let n = int (length xs);
          a' = (if a < 0 then max 0 (n + a) else min a n);
          b' = (if b < 0 then max 0 (n + b) else min b n)
      in drop (nat a') (take (nat b') xs))"

text \<open>\<^verbatim>\<open>xs.insert(0, x)\<close>.\<close>

definition insert0 :: "'a \<Rightarrow> 'a list \<Rightarrow> 'a list" where
  "insert0 x xs = x # xs"

text \<open>\<^verbatim>\<open>c.isspace()\<close> for one character below 256.\<close>

definition py_isspace :: "char \<Rightarrow> bool" where
  "py_isspace c = ((of_char c :: nat) \<in> {9, 10, 11, 12, 13, 28, 29, 30, 31, 32, 133, 160})"

text \<open>\<^verbatim>\<open>c.isdigit()\<close> for one character below 256: the ASCII digits and the
  superscripts two, three and one.\<close>

definition digit_char :: "char \<Rightarrow> bool" where
  "digit_char c = (let k = (of_char c :: nat) in (48 \<le> k \<and> k \<le> 57) \<or> k = 178 \<or> k = 179 \<or> k = 185)"

definition py_isdigit :: "string \<Rightarrow> bool" where
  "py_isdigit s = (s \<noteq> [] \<and> list_all digit_char s)"

text \<open>\<^verbatim>\<open>text.find(sub, start)\<close>: the lowest index from \<open>start\<close> on at which
  \<open>sub\<close> occurs, \<open>None\<close> for the source's \<open>-1\<close>.\<close>

definition py_find :: "string \<Rightarrow> string \<Rightarrow> nat \<Rightarrow> nat option" where
  "py_find s sub strt =
     List.find (\<lambda>k. take (length sub) (drop k s) = sub) [strt ..< Suc (length s) - length sub]"

section \<open>Tokens (strings.py)\<close>

text \<open>The class of a token object: \<open>Token\<close> is the base class, the other six are its
  direct subclasses.\<close>

datatype token_class = Token | Whitespace | Spacer | Punctuation | Word | Special | Numeric

text \<open>\<^verbatim>\<open>isinstance(x, C)\<close> where \<open>c\<close> is the class of \<open>x\<close>: every class is a
  subclass of \<open>Token\<close>, and of itself.\<close>

definition isinstance :: "token_class \<Rightarrow> token_class \<Rightarrow> bool" where
  "isinstance c C = (C = Token \<or> c = C)"

record token =
  cls :: token_class
  tok_text :: string
  index :: "nat option"
  start :: "nat option"
  aligned :: bool
  alignment_spaces :: int
  color :: "string option"
  bg :: "string option"
  original :: "addr option"
  operation :: "string option"

text \<open>The constructor \<^verbatim>\<open>Token.__init__\<close> with its defaults, for class \<open>c\<close>.\<close>

definition new_token :: "token_class \<Rightarrow> string \<Rightarrow> token" where
  "new_token c s = \<lparr> cls = c, tok_text = s, index = None, start = None, aligned = False,
     alignment_spaces = 0, color = Some [], bg = None, original = None, operation = None \<rparr>"

text \<open>\<^verbatim>\<open>len(token)\<close>.\<close>

definition tok_len :: "token \<Rightarrow> nat" where
  "tok_len t = length (tok_text t)"

definition clear_alignment_token :: "token \<Rightarrow> token" where
  "clear_alignment_token t = t\<lparr> aligned := False, alignment_spaces := 0, color := None \<rparr>"

text \<open>\<^verbatim>\<open>COLOR_MAPPING\<close>: its eight keys, and colorama's foreground escape sequences as
  values.  \<^verbatim>\<open>set_color\<close> is only ever called with one of the keys.\<close>

datatype color_key = Key_b | Key_r | Key_g | Key_p | Key_y | Key_c | Key_w | Key_k

definition esc :: char where
  "esc = CHR 0x1B"

fun COLOR_MAPPING :: "color_key \<Rightarrow> string" where
  "COLOR_MAPPING Key_b = esc # ''[34m''"
| "COLOR_MAPPING Key_r = esc # ''[31m''"
| "COLOR_MAPPING Key_g = esc # ''[32m''"
| "COLOR_MAPPING Key_p = esc # ''[35m''"
| "COLOR_MAPPING Key_y = esc # ''[33m''"
| "COLOR_MAPPING Key_c = esc # ''[36m''"
| "COLOR_MAPPING Key_w = esc # ''[37m''"
| "COLOR_MAPPING Key_k = esc # ''[30m''"

definition set_color :: "color_key \<Rightarrow> token \<Rightarrow> token" where
  "set_color k t = t\<lparr> color := Some (COLOR_MAPPING k) \<rparr>"

definition PUNCTUATION_MARKS :: "string set" where
  "PUNCTUATION_MARKS = {''.'', '','', ''!'', ''?'', '':'', '';'', ''('', '')'', ''['', '']'',
     ''{'', ''}'', [CHR 0x22], [CHR 0x27], ''-'', [CHR 0x27, CHR 0x27]}"

text \<open>The character class of \<^verbatim>\<open>WORD_PATTERN\<close>: letters, digits, and the range from
  the apostrophe to the full stop that \<^verbatim>\<open>\'-.\<close> denotes.\<close>

definition word_char :: "char \<Rightarrow> bool" where
  "word_char c = (let k = (of_char c :: nat) in
     (65 \<le> k \<and> k \<le> 90) \<or> (97 \<le> k \<and> k \<le> 122) \<or> (48 \<le> k \<and> k \<le> 57) \<or> (39 \<le> k \<and> k \<le> 46))"

text \<open>\<^verbatim>\<open>WORD_PATTERN.match(text)\<close>: \<^verbatim>\<open>$\<close> also matches before one final
  newline.\<close>

definition word_pattern_match :: "string \<Rightarrow> bool" where
  "word_pattern_match s =
     ((s \<noteq> [] \<and> list_all word_char s) \<or>
      (s \<noteq> [] \<and> last s = CHR 0x0A \<and> butlast s \<noteq> [] \<and> list_all word_char (butlast s)))"

definition create_token_class :: "string \<Rightarrow> token_class" where
  "create_token_class s =
     (if s = '' '' then Whitespace
      else if s \<in> PUNCTUATION_MARKS then Punctuation
      else if py_isdigit s then Numeric
      else if word_pattern_match s then Word
      else if s = [] then Spacer
      else if s = [CHR 0x0A] \<or> s = [CHR 0x09] then Special
      else Token)"

definition create_token :: "string \<Rightarrow> token" where
  "create_token s = new_token (create_token_class s) s"

section \<open>The store of token objects\<close>

text \<open>
  Token objects are shared by reference: the aligned sequences hold the very objects of the
  input sequences, and every method that changes a token changes it for all its holders.
  The store maps an address to the object living there; \<open>next_addr\<close> is the first address
  not yet handed out.
\<close>

record store =
  heap :: "addr \<Rightarrow> token"
  next_addr :: addr

definition alloc :: "store \<Rightarrow> token \<Rightarrow> store \<times> addr" where
  "alloc \<sigma> t = (\<sigma>\<lparr> heap := (heap \<sigma>)(next_addr \<sigma> := t), next_addr := Suc (next_addr \<sigma>) \<rparr>, next_addr \<sigma>)"

fun alloc_all :: "store \<Rightarrow> token list \<Rightarrow> store \<times> addr list" where
  "alloc_all \<sigma> [] = (\<sigma>, [])"
| "alloc_all \<sigma> (t # ts) =
     (let (\<sigma>1, a) = alloc \<sigma> t; (\<sigma>2, as) = alloc_all \<sigma>1 ts in (\<sigma>2, a # as))"

section \<open>The sequence container (class Text)\<close>

record text_seq =
  tokens :: "addr list"
  cached_text :: "string option"

definition to_string :: "(addr \<Rightarrow> token) \<Rightarrow> addr list \<Rightarrow> string" where
  "to_string h toks = concat (map (\<lambda>a. tok_text (h a)) toks)"

text \<open>The loop of \<^verbatim>\<open>recalculate_indices\<close>: \<open>i\<close> is the position of the token at the
  head of the remaining list, \<open>st\<close> the running character offset.\<close>

fun recalc_loop :: "(addr \<Rightarrow> token) \<Rightarrow> addr list \<Rightarrow> nat \<Rightarrow> nat \<Rightarrow> (addr \<Rightarrow> token)" where
  "recalc_loop h [] i st = h"
| "recalc_loop h (a # rest) i st =
     (let h1 = h(a := (h a)\<lparr> index := Some i, start := Some st \<rparr>);
          no_space_needed =
            (case rest of [] \<Rightarrow> False
             | b # _ \<Rightarrow> isinstance (cls (h1 b)) Punctuation \<or> isinstance (cls (h1 b)) Whitespace
                        \<or> isinstance (cls (h1 b)) Spacer);
          offset = (if rest \<noteq> [] \<and> \<not> no_space_needed then 1 else 0)
      in recalc_loop h1 rest (Suc i) (st + tok_len (h1 a) + offset))"

definition recalculate_indices :: "store \<Rightarrow> text_seq \<Rightarrow> store \<times> text_seq" where
  "recalculate_indices \<sigma> t =
     (let h' = recalc_loop (heap \<sigma>) (tokens t) 0 0
      in (\<sigma>\<lparr> heap := h' \<rparr>, t\<lparr> cached_text := Some (to_string h' (tokens t)) \<rparr>))"

text \<open>\<^verbatim>\<open>Text()\<close>: no tokens, then \<^verbatim>\<open>recalculate_indices\<close>.\<close>

definition empty_Text :: "store \<Rightarrow> store \<times> text_seq" where
  "empty_Text \<sigma> = recalculate_indices \<sigma> \<lparr> tokens = [], cached_text = None \<rparr>"

text \<open>\<^verbatim>\<open>text.insert(0, token)\<close>.\<close>

definition text_insert0 :: "store \<Rightarrow> text_seq \<Rightarrow> addr \<Rightarrow> store \<times> text_seq" where
  "text_insert0 \<sigma> t a = recalculate_indices \<sigma> (t\<lparr> tokens := insert0 a (tokens t) \<rparr>)"

definition clear_alignment :: "store \<Rightarrow> text_seq \<Rightarrow> store" where
  "clear_alignment \<sigma> t =
     \<sigma>\<lparr> heap := fold (\<lambda>a h. h(a := clear_alignment_token (h a))) (tokens t) (heap \<sigma>) \<rparr>"

section \<open>The tokenizer\<close>

text \<open>The inner loop of \<^verbatim>\<open>whitespace_tokenize_from_nltk\<close>: every whitespace character
  right after a unit becomes a token of its own.\<close>

function collect_ws :: "string \<Rightarrow> nat \<Rightarrow> string list \<Rightarrow> nat \<times> string list" where
  "collect_ws s ci res =
     (if ci < length s \<and> py_isspace (s ! ci)
      then collect_ws s (Suc ci) (res @ [[s ! ci]])
      else (ci, res))"
  by pat_completeness auto
termination
  by (relation "measure (\<lambda>(s, ci, res). length s - ci)") auto

declare collect_ws.simps [simp del]

fun tokenize_loop :: "string \<Rightarrow> string list \<Rightarrow> nat \<Rightarrow> string list \<Rightarrow> error + string list" where
  "tokenize_loop s [] ci res = Inr res"
| "tokenize_loop s (tok # rest) ci res =
     (case py_find s tok ci of
        None \<Rightarrow> Inl ValueError
      | Some k \<Rightarrow>
          (let (ci', res') = collect_ws s (k + length tok) (res @ [tok])
           in tokenize_loop s rest ci' res'))"

text \<open>\<^verbatim>\<open>nltk.word_tokenize\<close> belongs to a library outside the repository: it is the
  parameter \<open>word_tokenize\<close>.\<close>

definition whitespace_tokenize_from_nltk :: "(string \<Rightarrow> string list) \<Rightarrow> string \<Rightarrow> error + string list" where
  "whitespace_tokenize_from_nltk word_tokenize s = tokenize_loop s (word_tokenize s) 0 []"

text \<open>\<^verbatim>\<open>Text(string)\<close>: \<^verbatim>\<open>from_string\<close> creates one object per unit and recalculates,
  and the constructor recalculates once more.\<close>

definition Text_of_string :: "(string \<Rightarrow> string list) \<Rightarrow> store \<Rightarrow> string \<Rightarrow> error + (store \<times> text_seq)" where
  "Text_of_string word_tokenize \<sigma> s =
     (case whitespace_tokenize_from_nltk word_tokenize s of
        Inl e \<Rightarrow> Inl e
      | Inr units \<Rightarrow>
          (let (\<sigma>1, as) = alloc_all \<sigma> (map create_token units);
               (\<sigma>2, t) = recalculate_indices \<sigma>1 \<lparr> tokens = as, cached_text = None \<rparr>
           in Inr (recalculate_indices \<sigma>2 (t\<lparr> cached_text := None \<rparr>))))"

section \<open>Alignment logic (alignment.py)\<close>

subsection \<open>Longest common substring\<close>

text \<open>The body of the two nested loops of \<^verbatim>\<open>longest_common_substring\<close>, on the state
  \<open>(dp, length, row)\<close>.  The loops run over \<open>1..n\<close> and \<open>1..m\<close>, so every index is in
  range.\<close>

definition lcs_cell :: "string \<Rightarrow> string \<Rightarrow> nat \<Rightarrow> nat \<Rightarrow> nat list list \<times> nat \<times> nat \<Rightarrow> nat list list \<times> nat \<times> nat" where
  "lcs_cell s1 s2 i j = (\<lambda>(dp, len, row).
     if s1 ! (i - 1) = s2 ! (j - 1) then
       (let v = dp ! (i - 1) ! (j - 1) + 1;
            dp' = dp[i := (dp ! i)[j := v]]
        in if v > len then (dp', v, i) else (dp', len, row))
     else (dp[i := (dp ! i)[j := 0]], len, row))"

definition lcs_loops :: "string \<Rightarrow> string \<Rightarrow> nat list list \<times> nat \<times> nat" where
  "lcs_loops s1 s2 =
     (let n = length s1; m = length s2
      in fold (\<lambda>i. fold (\<lambda>j. lcs_cell s1 s2 i j) [1 ..< m + 1]) [1 ..< n + 1]
           (replicate (n + 1) (replicate (m + 1) 0), 0, 0))"

definition longest_common_substring :: "string \<Rightarrow> string \<Rightarrow> string" where
  "longest_common_substring s1 s2 =
     (case lcs_loops s1 s2 of (dp, len, row) \<Rightarrow>
        if len = 0 then [] else py_slice s1 (int row - int len) (int row))"

subsection \<open>The scorer\<close>

record scoring =
  match_score :: rat
  mismatch_score :: rat
  gap_score :: rat
  substring_match_score :: rat
  type_match_score :: rat
  original_match_score :: rat

text \<open>The default values of the keyword parameters.\<close>

definition default_scoring :: scoring where
  "default_scoring = \<lparr> match_score = 1, mismatch_score = - 1, gap_score = - 1,
     substring_match_score = 3 / 2, type_match_score = 1 / 2, original_match_score = 1 / 2 \<rparr>"

type_synonym score_matrix = "rat list list"
type_synonym traceback_matrix = "string list list"

text \<open>Exceptions end a loop: a fold that stops at the first error.\<close>

fun foldE :: "('a \<Rightarrow> 's \<Rightarrow> error + 's) \<Rightarrow> 'a list \<Rightarrow> 's \<Rightarrow> error + 's" where
  "foldE f [] s = Inr s"
| "foldE f (x # xs) s = (case f x s of Inl e \<Rightarrow> Inl e | Inr s' \<Rightarrow> foldE f xs s')"

text \<open>Lines 142 to 149: \<open>to_match1\<close> is the original of \<open>token1\<close> when there is one, and
  \<open>token1\<close> otherwise; the text compared is its text.\<close>

definition mismatch_score_adjusted :: "scoring \<Rightarrow> token \<Rightarrow> token \<Rightarrow> token \<Rightarrow> error + rat" where
  "mismatch_score_adjusted P token1 to_match1 token2 =
     (let lcs = longest_common_substring (tok_text to_match1) (tok_text token2);
          max_len = max (length (tok_text to_match1)) (length (tok_text token2))
      in if max_len = 0 then Inl ZeroDivisionError
         else Inr (mismatch_score P
                   + (of_nat (length lcs) / of_nat max_len) * substring_match_score P
                   + (if isinstance (cls token1) (cls token2) \<and> max_len > 1
                      then type_match_score P else 0)))"

text \<open>Lines 127 to 140: the bonus \<open>original_match\<close>.\<close>

definition original_match :: "scoring \<Rightarrow> (addr \<Rightarrow> token) \<Rightarrow> token \<Rightarrow> token \<Rightarrow> rat" where
  "original_match P h token1 token2 =
     (case original token1 of
        None \<Rightarrow> 0
      | Some oa \<Rightarrow>
          (if tok_text (h oa) = tok_text token2 then original_match_score P else 0)
          + (if isinstance (cls (h oa)) (cls token2) then type_match_score P else 0))"

text \<open>Lines 123 to 153: the diagonal candidate \<open>match\<close>, from \<open>prev = score[i-1][j-1]\<close>.\<close>

definition match_candidate :: "scoring \<Rightarrow> (addr \<Rightarrow> token) \<Rightarrow> addr \<Rightarrow> addr \<Rightarrow> rat \<Rightarrow> error + rat" where
  "match_candidate P h a1 a2 prev =
     (let token1 = h a1; token2 = h a2
      in if tok_text token1 = tok_text token2 then Inr (prev + match_score P)
         else (let to_match1 = (case original token1 of Some oa \<Rightarrow> h oa | None \<Rightarrow> token1)
               in case mismatch_score_adjusted P token1 to_match1 token2 of
                    Inl e \<Rightarrow> Inl e
                  | Inr adj \<Rightarrow> Inr (prev + adj + original_match P h token1 token2)))"

text \<open>The body of the loops at lines 119 to 168.\<close>

definition fill_cell :: "scoring \<Rightarrow> (addr \<Rightarrow> token) \<Rightarrow> addr list \<Rightarrow> addr list \<Rightarrow> nat \<Rightarrow> nat
    \<Rightarrow> score_matrix \<times> traceback_matrix \<Rightarrow> error + score_matrix \<times> traceback_matrix" where
  "fill_cell P h s1 s2 i j = (\<lambda>(S, T).
     case match_candidate P h (s1 ! (i - 1)) (s2 ! (j - 1)) (S ! (i - 1) ! (j - 1)) of
       Inl e \<Rightarrow> Inl e
     | Inr mtch \<Rightarrow>
         (let delete = S ! (i - 1) ! j + gap_score P;
              insrt = S ! i ! (j - 1) + gap_score P;
              max_score = max (max mtch delete) insrt;
              S' = S[i := (S ! i)[j := max_score]];
              t0 = T ! i ! j;
              t1 = (if max_score = mtch then t0 @ ''D'' else t0);
              t2 = (if max_score = delete then t1 @ ''U'' else t1);
              t3 = (if max_score = insrt then t2 @ ''L'' else t2)
          in Inr (S', T[i := (T ! i)[j := t3]])))"

text \<open>Lines 109 to 116: the first column and the first row.\<close>

definition init_col :: "scoring \<Rightarrow> nat \<Rightarrow> score_matrix \<times> traceback_matrix \<Rightarrow> score_matrix \<times> traceback_matrix" where
  "init_col P i = (\<lambda>(S, T).
     (S[i := (S ! i)[0 := gap_score P * of_nat i]],
      if i > 0 then T[i := (T ! i)[0 := ''U'']] else T))"

definition init_row :: "scoring \<Rightarrow> nat \<Rightarrow> score_matrix \<times> traceback_matrix \<Rightarrow> score_matrix \<times> traceback_matrix" where
  "init_row P j = (\<lambda>(S, T).
     (S[0 := (S ! 0)[j := gap_score P * of_nat j]],
      if j > 0 then T[0 := (T ! 0)[j := ''L'']] else T))"

definition init_matrices :: "scoring \<Rightarrow> nat \<Rightarrow> nat \<Rightarrow> score_matrix \<times> traceback_matrix" where
  "init_matrices P n m =
     fold (init_row P) [0 ..< m + 1]
       (fold (init_col P) [0 ..< n + 1]
          (replicate (n + 1) (replicate (m + 1) 0), replicate (n + 1) (replicate (m + 1) [])))"

definition fill_matrices :: "scoring \<Rightarrow> (addr \<Rightarrow> token) \<Rightarrow> addr list \<Rightarrow> addr list
    \<Rightarrow> error + score_matrix \<times> traceback_matrix" where
  "fill_matrices P h s1 s2 =
     (let n = length s1; m = length s2
      in foldE (\<lambda>i. foldE (\<lambda>j. fill_cell P h s1 s2 i j) [1 ..< m + 1]) [1 ..< n + 1]
           (init_matrices P n m))"

definition needleman_wunsch_alignment_words_substring ::
    "scoring \<Rightarrow> store \<Rightarrow> text_seq \<Rightarrow> text_seq \<Rightarrow> error + store \<times> score_matrix \<times> traceback_matrix" where
  "needleman_wunsch_alignment_words_substring P \<sigma> text1 text2 =
     (let \<sigma>1 = clear_alignment \<sigma> text1;
          \<sigma>2 = clear_alignment \<sigma>1 text2
      in case fill_matrices P (heap \<sigma>2) (tokens text1) (tokens text2) of
           Inl e \<Rightarrow> Inl e
         | Inr (S, T) \<Rightarrow> Inr (\<sigma>2, S, T))"

subsection \<open>The reconstructor\<close>

text \<open>The gap placeholder of the branches \<open>U\<close> and \<open>L\<close>: the token at the gapped position
  of the other sequence when that is a \<open>Spacer\<close> already, a new \<open>Spacer\<close> object otherwise;
  \<open>k\<close> is the length of the consumed token.\<close>

definition spacer_for :: "store \<Rightarrow> addr \<Rightarrow> nat \<Rightarrow> store \<times> addr" where
  "spacer_for \<sigma> other k =
     (if isinstance (cls (heap \<sigma> other)) Spacer
      then (\<sigma>\<lparr> heap := (heap \<sigma>)(other := (heap \<sigma> other)\<lparr> alignment_spaces := int k \<rparr>) \<rparr>, other)
      else alloc \<sigma> ((new_token Spacer [])\<lparr> aligned := True, alignment_spaces := int k \<rparr>))"

type_synonym walk_state = "store \<times> text_seq \<times> text_seq"

definition diag_move :: "walk_state \<Rightarrow> addr \<Rightarrow> addr \<Rightarrow> walk_state" where
  "diag_move = (\<lambda>(\<sigma>, A1, A2) token1 token2.
     let (\<sigma>1, A1') = text_insert0 \<sigma> A1 token1;
         (\<sigma>2, A2') = text_insert0 \<sigma>1 A2 token2
     in (\<sigma>2, A1', A2'))"

definition up_move :: "walk_state \<Rightarrow> addr \<Rightarrow> addr \<Rightarrow> walk_state" where
  "up_move = (\<lambda>(\<sigma>, A1, A2) token1 token2.
     let (\<sigma>0, spacer) = spacer_for \<sigma> token2 (tok_len (heap \<sigma> token1));
         (\<sigma>1, A1') = text_insert0 \<sigma>0 A1 token1;
         (\<sigma>2, A2') = text_insert0 \<sigma>1 A2 spacer
     in (\<sigma>2, A1', A2'))"

definition left_move :: "walk_state \<Rightarrow> addr \<Rightarrow> addr \<Rightarrow> walk_state" where
  "left_move = (\<lambda>(\<sigma>, A1, A2) token1 token2.
     let (\<sigma>0, spacer) = spacer_for \<sigma> token1 (tok_len (heap \<sigma> token2));
         (\<sigma>1, A1') = text_insert0 \<sigma>0 A1 spacer;
         (\<sigma>2, A2') = text_insert0 \<sigma>1 A2 token2
     in (\<sigma>2, A1', A2'))"

text \<open>The loop at lines 185 to 216.  Its condition \<^verbatim>\<open>i >= 0 or j >= 0\<close> is always true:
  \<open>i\<close> and \<open>j\<close> start at the lengths and are decremented only when positive, so the loop
  ends at the \<^verbatim>\<open>break\<close> alone.\<close>

function walk :: "traceback_matrix \<Rightarrow> addr list \<Rightarrow> addr list \<Rightarrow> nat \<Rightarrow> nat \<Rightarrow> walk_state \<Rightarrow> error + walk_state" where
  "walk T s1 s2 i j st =
     (case py_nth2 T i j of
        Inl e \<Rightarrow> Inl e
      | Inr trace \<Rightarrow>
     (case py_nth s1 (if i > 0 then i - 1 else 0) of
        Inl e \<Rightarrow> Inl e
      | Inr token1 \<Rightarrow>
     (case py_nth s2 (if j > 0 then j - 1 else 0) of
        Inl e \<Rightarrow> Inl e
      | Inr token2 \<Rightarrow>
          if CHR ''D'' \<in> set trace \<and> i > 0 \<and> j > 0
            then walk T s1 s2 (i - 1) (j - 1) (diag_move st token1 token2)
          else if CHR ''U'' \<in> set trace \<and> i > 0
            then walk T s1 s2 (i - 1) j (up_move st token1 token2)
          else if CHR ''L'' \<in> set trace \<and> j > 0
            then walk T s1 s2 i (j - 1) (left_move st token1 token2)
          else Inr st)))"
  by pat_completeness auto
termination
  by (relation "measure (\<lambda>(T, s1, s2, i, j, st). i + j)") auto

declare walk.simps [simp del]

text \<open>The loop at lines 218 to 233, for one pair \<open>(w1, w2)\<close>.\<close>

definition annotate_pair :: "addr \<times> addr \<Rightarrow> (addr \<Rightarrow> token) \<Rightarrow> (addr \<Rightarrow> token)" where
  "annotate_pair = (\<lambda>(w1, w2) h.
     if tok_text (h w1) \<noteq> tok_text (h w2) then
       (let max_len = max (tok_len (h w1)) (tok_len (h w2));
            h1 = h(w1 := (h w1)\<lparr> alignment_spaces := int max_len - int (tok_len (h w1)) \<rparr>);
            h2 = h1(w2 := (h1 w2)\<lparr> alignment_spaces := int max_len - int (tok_len (h1 w2)) \<rparr>);
            k = (if isinstance (cls (h2 w1)) Spacer then Key_b
                 else if isinstance (cls (h2 w2)) Spacer then Key_p
                 else Key_r);
            h3 = h2(w1 := (h2 w1)\<lparr> aligned := True \<rparr>);
            h4 = h3(w2 := (h3 w2)\<lparr> aligned := True \<rparr>);
            h5 = h4(w1 := set_color k (h4 w1))
        in h5(w2 := set_color k (h5 w2)))
     else h)"

definition get_alignment_and_visualization_words ::
    "store \<Rightarrow> text_seq \<Rightarrow> text_seq \<Rightarrow> traceback_matrix \<Rightarrow> error + walk_state" where
  "get_alignment_and_visualization_words \<sigma> text1 text2 T =
     (let n = length (tokens text1); m = length (tokens text2);
          (\<sigma>1, aligned_text1) = empty_Text \<sigma>;
          (\<sigma>2, aligned_text2) = empty_Text \<sigma>1
      in case walk T (tokens text1) (tokens text2) n m (\<sigma>2, aligned_text1, aligned_text2) of
           Inl e \<Rightarrow> Inl e
         | Inr (\<sigma>3, A1, A2) \<Rightarrow>
             Inr (\<sigma>3\<lparr> heap := fold annotate_pair (zip (tokens A1) (tokens A2)) (heap \<sigma>3) \<rparr>, A1, A2))"

subsection \<open>Entry points\<close>

definition align_sentences :: "store \<Rightarrow> text_seq \<Rightarrow> text_seq \<Rightarrow> error + walk_state" where
  "align_sentences \<sigma> text1 text2 =
     (case needleman_wunsch_alignment_words_substring default_scoring \<sigma> text1 text2 of
        Inl e \<Rightarrow> Inl e
      | Inr (\<sigma>1, S, T) \<Rightarrow>
     (case get_alignment_and_visualization_words \<sigma>1 text1 text2 T of
        Inl e \<Rightarrow> Inl e
      | Inr (\<sigma>2, s1_aligned, s2_aligned) \<Rightarrow>
          (let (\<sigma>3, a1) = recalculate_indices \<sigma>2 s1_aligned;
               (\<sigma>4, a2) = recalculate_indices \<sigma>3 s2_aligned
           in Inr (\<sigma>4, a1, a2))))"

definition align_strings :: "(string \<Rightarrow> string list) \<Rightarrow> store \<Rightarrow> string \<Rightarrow> string \<Rightarrow> error + walk_state" where
  "align_strings word_tokenize \<sigma> s1 s2 =
     (case Text_of_string word_tokenize \<sigma> s1 of
        Inl e \<Rightarrow> Inl e
      | Inr (\<sigma>1, text1) \<Rightarrow>
     (case Text_of_string word_tokenize \<sigma>1 s2 of
        Inl e \<Rightarrow> Inl e
      | Inr (\<sigma>2, text2) \<Rightarrow> align_sentences \<sigma>2 text1 text2))"

text \<open>The moves of the walk from cell \<open>(i, j)\<close>, in the order they are made: the same tests
  as in \<open>walk\<close>, without the tokens.\<close>

datatype move = Diagonal | Up | Left

function traceback_path :: "traceback_matrix \<Rightarrow> nat \<Rightarrow> nat \<Rightarrow> move list" where
  "traceback_path T i j =
     (case py_nth2 T i j of
        Inl e \<Rightarrow> []
      | Inr trace \<Rightarrow>
          if CHR ''D'' \<in> set trace \<and> i > 0 \<and> j > 0 then Diagonal # traceback_path T (i - 1) (j - 1)
          else if CHR ''U'' \<in> set trace \<and> i > 0 then Up # traceback_path T (i - 1) j
          else if CHR ''L'' \<in> set trace \<and> j > 0 then Left # traceback_path T i (j - 1)
          else [])"
  by pat_completeness auto
termination
  by (relation "measure (\<lambda>(T, i, j). i + j)") auto

declare traceback_path.simps [simp del]

section \<open>Notions used in the statements, and examples\<close>

definition same_length :: "walk_state \<Rightarrow> bool" where
  "same_length = (\<lambda>(\<sigma>, A1, A2). length (tokens A1) = length (tokens A2))"

text \<open>What a result shows of its two sequences: each token object with its address.\<close>

definition view :: "error + walk_state \<Rightarrow> error + (addr \<times> token) list \<times> (addr \<times> token) list" where
  "view r = (case r of Inl e \<Rightarrow> Inl e
     | Inr (\<sigma>, A1, A2) \<Rightarrow>
         Inr (map (\<lambda>a. (a, heap \<sigma> a)) (tokens A1), map (\<lambda>a. (a, heap \<sigma> a)) (tokens A2)))"

text \<open>A store with the three word tokens \<open>cat\<close>, \<open>big\<close>, \<open>cat\<close>, and the two sequences
  \<open>cat\<close> and \<open>big cat\<close> over it.\<close>

definition ex_store :: store where
  "ex_store = \<lparr> heap = (\<lambda>_. new_token Token [])(0 := new_token Word ''cat'',
       1 := new_token Word ''big'', 2 := new_token Word ''cat''), next_addr = 3 \<rparr>"

definition ex_text1 :: text_seq where
  "ex_text1 = \<lparr> tokens = [0], cached_text = None \<rparr>"

definition ex_text2 :: text_seq where
  "ex_text2 = \<lparr> tokens = [1, 2], cached_text = None \<rparr>"

definition ex_cleared :: store where
  "ex_cleared = clear_alignment (clear_alignment ex_store ex_text1) ex_text2"

definition ex_S :: score_matrix where
  "ex_S = [[0, - 1, - 2], [- 1, - 1 / 2, 0]]"

definition ex_T :: traceback_matrix where
  "ex_T = [[[], ''L'', ''L''], [''U'', ''D'', ''D'']]"

text \<open>A traceback matrix with a tie in cell \<open>(1, 1)\<close>.\<close>

definition tie_T :: traceback_matrix where
  "tie_T = [[[], ''L''], [''U'', ''DU'']]"

definition ex_state :: walk_state where
  "ex_state = (ex_store, \<lparr> tokens = [], cached_text = Some [] \<rparr>, \<lparr> tokens = [], cached_text = Some [] \<rparr>)"

text \<open>A store in which nothing has been allocated.\<close>

definition empty_store :: store where
  "empty_store = \<lparr> heap = (\<lambda>_. new_token Token []), next_addr = 0 \<rparr>"

text \<open>Two stand-ins for the word tokenizer, for the examples: \<open>plain_word_tokenize\<close>
  returns the maximal runs of characters that are not whitespace, which is what
  \<^verbatim>\<open>nltk.word_tokenize\<close> returns on plain words separated by whitespace;
  \<open>char_units\<close> makes every character a unit.\<close>

fun split_units :: "string \<Rightarrow> string \<Rightarrow> string list" where
  "split_units [] cur = (if cur = [] then [] else [cur])"
| "split_units (c # cs) cur =
     (if py_isspace c then (if cur = [] then split_units cs [] else cur # split_units cs [])
      else split_units cs (cur @ [c]))"

definition plain_word_tokenize :: "string \<Rightarrow> string list" where
  "plain_word_tokenize s = split_units s []"

definition char_units :: "string \<Rightarrow> string list" where
  "char_units s = map (\<lambda>c. [c]) s"

text \<open>The flat string and the token classes of a constructed sequence.\<close>

definition to_plain_string :: "error + store \<times> text_seq \<Rightarrow> error + string" where
  "to_plain_string r =
     (case r of Inl e \<Rightarrow> Inl e | Inr (\<sigma>, t) \<Rightarrow> Inr (to_string (heap \<sigma>) (tokens t)))"

definition token_classes :: "error + store \<times> text_seq \<Rightarrow> error + token_class list" where
  "token_classes r =
     (case r of Inl e \<Rightarrow> Inl e | Inr (\<sigma>, t) \<Rightarrow> Inr (map (\<lambda>a. cls (heap \<sigma> a)) (tokens t)))"

text \<open>The matrices that \<^verbatim>\<open>align_strings\<close> computes on its way; it does not return
  them.\<close>

definition scored_strings :: "(string \<Rightarrow> string list) \<Rightarrow> store \<Rightarrow> string \<Rightarrow> string
    \<Rightarrow> error + score_matrix \<times> traceback_matrix" where
  "scored_strings word_tokenize \<sigma> s1 s2 =
     (case Text_of_string word_tokenize \<sigma> s1 of
        Inl e \<Rightarrow> Inl e
      | Inr (\<sigma>1, text1) \<Rightarrow>
     (case Text_of_string word_tokenize \<sigma>1 s2 of
        Inl e \<Rightarrow> Inl e
      | Inr (\<sigma>2, text2) \<Rightarrow>
     (case needleman_wunsch_alignment_words_substring default_scoring \<sigma>2 text1 text2 of
        Inl e \<Rightarrow> Inl e
      | Inr (\<sigma>3, S, T) \<Rightarrow> Inr (S, T))))"

text \<open>A text cut into units, each followed by the run of whitespace after it: the text,
  and the units that the tokenizer is to produce from it.\<close>

definition segments_text :: "(string \<times> string) list \<Rightarrow> string" where
  "segments_text segs = concat (map (\<lambda>(u, ws). u @ ws) segs)"

definition segments_units :: "(string \<times> string) list \<Rightarrow> string list" where
  "segments_units segs = concat (map (\<lambda>(u, ws). u # map (\<lambda>c. [c]) ws) segs)"

definition well_segmented :: "(string \<times> string) list \<Rightarrow> bool" where
  "well_segmented segs =
     list_all (\<lambda>(u, ws). u \<noteq> [] \<and> \<not> py_isspace (hd u) \<and> list_all py_isspace ws) segs"

text \<open>Tokens and scoring constants of the examples.\<close>

definition tok_ab :: token where "tok_ab = create_token ''ab''"
definition tok_at :: token where "tok_at = create_token ''@''"


definition letters_S :: score_matrix where
  "letters_S =
     [[0, - 1, - 2, - 3, - 4, - 5, - 6],
      [- 1, 1, 0, - 1, - 2, - 3, - 4],
      [- 2, 0, 2, 1, 0, - 1, - 2],
      [- 3, - 1, 1, 3, 2, 1, 0],
      [- 4, - 2, 0, 2, 4, 3, 2],
      [- 5, - 3, - 1, 1, 3, 3, 4]]"

definition letters_T :: traceback_matrix where
  "letters_T =
     [[[], ''L'', ''L'', ''L'', ''L'', ''L'', ''L''],
      [''U'', ''D'', ''L'', ''L'', ''L'', ''L'', ''L''],
      [''U'', ''U'', ''D'', ''L'', ''DL'', ''L'', ''L''],
      [''U'', ''U'', ''U'', ''D'', ''L'', ''L'', ''L''],
      [''U'', ''U'', ''DU'', ''U'', ''D'', ''L'', ''L''],
      [''U'', ''U'', ''U'', ''U'', ''U'', ''D'', ''D'']]"

text \<open>A table with \<open>r\<close> rows of \<open>c\<close> entries each.\<close>

definition rect :: "nat \<Rightarrow> nat \<Rightarrow> 'a list list \<Rightarrow> bool" where
  "rect r c M = (length M = r \<and> (\<forall>row \<in> set M. length row = c))"

text \<open>\<open>k\<close> is the length of a common suffix of the first \<open>i\<close> characters of \<open>s1\<close> and the
  first \<open>j\<close> characters of \<open>s2\<close>.\<close>

definition csuf :: "string \<Rightarrow> string \<Rightarrow> nat \<Rightarrow> nat \<Rightarrow> nat \<Rightarrow> bool" where
  "csuf s1 s2 k i j =
     (k \<le> i \<and> k \<le> j \<and> i \<le> length s1 \<and> j \<le> length s2
      \<and> take k (drop (i - k) s1) = take k (drop (j - k) s2))"

text \<open>What the loops of \<^verbatim>\<open>longest_common_substring\<close> keep true of their state.\<close>

definition lcs_inv :: "string \<Rightarrow> string \<Rightarrow> nat list list \<times> nat \<times> nat \<Rightarrow> bool" where
  "lcs_inv s1 s2 = (\<lambda>(dp, len, row).
     rect (length s1 + 1) (length s2 + 1) dp
     \<and> (\<forall>i \<le> length s1. \<forall>j \<le> length s2. csuf s1 s2 (dp ! i ! j) i j)
     \<and> (len = 0 \<or> (\<exists>j. csuf s1 s2 len row j)))"

text \<open>Cell \<open>(i, j)\<close> of the two matrices obeys the recurrence of the scorer.\<close>

definition cell_spec :: "scoring \<Rightarrow> (addr \<Rightarrow> token) \<Rightarrow> addr list \<Rightarrow> addr list
    \<Rightarrow> score_matrix \<Rightarrow> traceback_matrix \<Rightarrow> nat \<Rightarrow> nat \<Rightarrow> bool" where
  "cell_spec P h s1 s2 S T i j =
     (\<exists>mtch. match_candidate P h (s1 ! (i - 1)) (s2 ! (j - 1)) (S ! (i - 1) ! (j - 1)) = Inr mtch
        \<and> S ! i ! j = max (max mtch (S ! (i - 1) ! j + gap_score P)) (S ! i ! (j - 1) + gap_score P)
        \<and> T ! i ! j = (if S ! i ! j = mtch then ''D'' else [])
                     @ (if S ! i ! j = S ! (i - 1) ! j + gap_score P then ''U'' else [])
                     @ (if S ! i ! j = S ! i ! (j - 1) + gap_score P then ''L'' else []))"

text \<open>Five word tokens, each but the last with the next one as its original.\<close>

definition chain_store :: store where
  "chain_store = \<lparr> heap = (\<lambda>_. new_token Token [])
      (0 := (new_token Word ''aa'')\<lparr> original := Some 1 \<rparr>,
       1 := (new_token Word ''bb'')\<lparr> original := Some 2 \<rparr>,
       2 := (new_token Word ''cc'')\<lparr> original := Some 3 \<rparr>,
       3 := (new_token Word ''dd'')\<lparr> original := Some 4 \<rparr>,
       4 := new_token Word ''ee''), next_addr = 5 \<rparr>"

definition chain_seq :: text_seq where
  "chain_seq = \<lparr> tokens = [0, 1, 2, 3, 4], cached_text = None \<rparr>"

definition chain_S :: score_matrix where
  "chain_S =
     [[0, - 1, - 2, - 3, - 4, - 5],
      [- 1, 1, 1, 0, - 1, - 2],
      [- 2, 0, 2, 3, 2, 1],
      [- 3, - 1, 1, 3, 5, 4],
      [- 4, - 2, 0, 2, 4, 7],
      [- 5, - 3, - 1, 1, 3, 6]]"

definition chain_T :: traceback_matrix where
  "chain_T =
     [[[], ''L'', ''L'', ''L'', ''L'', ''L''],
      [''U'', ''D'', ''D'', ''L'', ''L'', ''L''],
      [''U'', ''U'', ''D'', ''D'', ''L'', ''L''],
      [''U'', ''U'', ''U'', ''D'', ''D'', ''L''],
      [''U'', ''U'', ''U'', ''U'', ''DU'', ''D''],
      [''U'', ''U'', ''U'', ''U'', ''U'', ''U'']]"

text \<open>The most that aligning the first \<open>i\<close> tokens with the first \<open>j\<close> tokens can score
  when a match counts one and a gap costs one.\<close>

definition score_bound :: "nat \<Rightarrow> nat \<Rightarrow> rat" where
  "score_bound i j = 2 * of_nat (min i j) - of_nat (max i j)"

text \<open>The spacing rule as a list of offsets: the start of every token of a sequence when
  the tokens are laid out from offset \<open>st\<close> on, one separating space before every token but
  the first, and none before a \<open>Punctuation\<close>, \<open>Whitespace\<close> or \<open>Spacer\<close> token.\<close>

fun flat_offsets :: "(addr \<Rightarrow> token) \<Rightarrow> addr list \<Rightarrow> nat \<Rightarrow> nat list" where
  "flat_offsets h [] st = []"
| "flat_offsets h (a # rest) st =
     st # flat_offsets h rest
       (st + length (tok_text (h a))
        + (case rest of [] \<Rightarrow> 0
           | b # _ \<Rightarrow> if cls (h b) \<in> {Punctuation, Whitespace, Spacer} then 0 else 1))"

text \<open>The key under which the post-pass colours a pair of tokens.\<close>

definition pair_key :: "token \<Rightarrow> token \<Rightarrow> color_key" where
  "pair_key w1 w2 = (if cls w1 = Spacer then Key_b else if cls w2 = Spacer then Key_p else Key_r)"

text \<open>The inputs of an alignment, seen from the store: \<open>s1\<close> and \<open>s2\<close> are the token
  lists of the two input sequences, every token object is in one place only, was
  allocated below \<open>N\<close>, and is not a \<open>Spacer\<close>.\<close>

definition separate_inputs :: "nat \<Rightarrow> (addr \<Rightarrow> token) \<Rightarrow> addr list \<Rightarrow> addr list \<Rightarrow> bool" where
  "separate_inputs N h0 s1 s2 =
     (distinct (s1 @ s2) \<and> (\<forall>a \<in> set (s1 @ s2). a < N \<and> cls (h0 a) \<noteq> Spacer))"

text \<open>What the walk keeps true at cell \<open>(i, j)\<close>: the aligned sequences hold the input
  objects from position \<open>i\<close> (and \<open>j\<close>) on, in their order, between objects allocated
  since, which are \<open>Spacer\<close> objects with the empty text; no object occurs twice.\<close>

definition aliased :: "nat \<Rightarrow> (addr \<Rightarrow> token) \<Rightarrow> addr list \<Rightarrow> addr list \<Rightarrow> nat \<Rightarrow> nat
    \<Rightarrow> walk_state \<Rightarrow> bool" where
  "aliased N h0 s1 s2 i j = (\<lambda>(\<sigma>, A1, A2).
       N \<le> next_addr \<sigma>
     \<and> (\<forall>a \<in> set (tokens A1) \<union> set (tokens A2). a < next_addr \<sigma>)
     \<and> distinct (tokens A1 @ tokens A2)
     \<and> filter (\<lambda>a. a < N) (tokens A1) = drop i s1
     \<and> filter (\<lambda>a. a < N) (tokens A2) = drop j s2
     \<and> (\<forall>a < N. cls (heap \<sigma> a) = cls (h0 a))
     \<and> (\<forall>a \<in> set (tokens A1) \<union> set (tokens A2).
          N \<le> a \<longrightarrow> cls (heap \<sigma> a) = Spacer \<and> tok_text (heap \<sigma> a) = []))"

text \<open>Every cell but \<open>(0, 0)\<close> offers the walk a move.\<close>

definition offers_move :: "traceback_matrix \<Rightarrow> nat \<Rightarrow> nat \<Rightarrow> bool" where
  "offers_move T n m =
     (\<forall>i \<le> n. \<forall>j \<le> m. 0 < i \<or> 0 < j \<longrightarrow>
        (CHR ''D'' \<in> set (T ! i ! j) \<and> 0 < i \<and> 0 < j)
        \<or> (CHR ''U'' \<in> set (T ! i ! j) \<and> 0 < i)
        \<or> (CHR ''L'' \<in> set (T ! i ! j) \<and> 0 < j))"

text \<open>Every token of the sequence \<open>as\<close> carries its position in \<open>as\<close> as index and its
  character offset in \<open>as\<close> as start.\<close>

definition reindexed :: "(addr \<Rightarrow> token) \<Rightarrow> addr list \<Rightarrow> bool" where
  "reindexed h as =
     (\<forall>k \<in> {..< length as}.
        index (h (as ! k)) = Some k \<and> start (h (as ! k)) = Some (flat_offsets h as 0 ! k))"

text \<open>The fields that the post-pass writes, for every pair of aligned tokens with
  different texts.\<close>

definition annotated :: "(addr \<Rightarrow> token) \<Rightarrow> addr list \<Rightarrow> addr list \<Rightarrow> bool" where
  "annotated h as bs =
     (\<forall>k \<in> {..< length as}.
        let w1 = h (as ! k); w2 = h (bs ! k); max_len = max (tok_len w1) (tok_len w2)
        in tok_text w1 \<noteq> tok_text w2 \<longrightarrow>
             aligned w1 \<and> aligned w2
           \<and> alignment_spaces w1 = int max_len - int (tok_len w1)
           \<and> alignment_spaces w2 = int max_len - int (tok_len w2)
           \<and> color w1 = Some (COLOR_MAPPING (pair_key w1 w2))
           \<and> color w2 = Some (COLOR_MAPPING (pair_key w1 w2)))"

text \<open>Two sequences \<open>big cat\<close> of different token objects, each token with the index
  and start it has in its sequence.\<close>

definition same_store :: store where
  "same_store = \<lparr> heap = (\<lambda>_. new_token Token [])
      (0 := (new_token Word ''big'')\<lparr> index := Some 0, start := Some 0 \<rparr>,
       1 := (new_token Word ''cat'')\<lparr> index := Some 1, start := Some 4 \<rparr>,
       2 := (new_token Word ''big'')\<lparr> index := Some 0, start := Some 0 \<rparr>,
       3 := (new_token Word ''cat'')\<lparr> index := Some 1, start := Some 4 \<rparr>), next_addr = 4 \<rparr>"

definition same_text1 :: text_seq where
  "same_text1 = \<lparr> tokens = [0, 1], cached_text = Some ''big cat'' \<rparr>"

definition same_text2 :: text_seq where
  "same_text2 = \<lparr> tokens = [2, 3], cached_text = Some ''big cat'' \<rparr>"

definition same_cleared :: store where
  "same_cleared = clear_alignment (clear_alignment same_store same_text1) same_text2"

definition same_S :: score_matrix where
  "same_S = [[0, - 1, - 2], [- 1, 1, 0], [- 2, 0, 2]]"

definition same_T :: traceback_matrix where
  "same_T = [[[], ''L'', ''L''], [''U'', ''D'', ''L''], [''U'', ''U'', ''D'']]"

text \<open>What a result shows of the positions written into its tokens: each token object
  with its address, class, index and start.\<close>

definition positions :: "error + walk_state
    \<Rightarrow> error + (addr \<times> token_class \<times> nat option \<times> nat option) list
              \<times> (addr \<times> token_class \<times> nat option \<times> nat option) list" where
  "positions r = (case view r of Inl e \<Rightarrow> Inl e
     | Inr (v1, v2) \<Rightarrow>
         Inr (map (\<lambda>(a, t). (a, cls t, index t, start t)) v1,
              map (\<lambda>(a, t). (a, cls t, index t, start t)) v2))"

text \<open>The sequence \<open>a\<close> and a sequence \<open>a a\<close> that holds the same token object
  twice.\<close>

definition twice_store :: store where
  "twice_store = \<lparr> heap = (\<lambda>_. new_token Token [])(0 := new_token Word ''a''), next_addr = 1 \<rparr>"

definition twice_text1 :: text_seq where
  "twice_text1 = \<lparr> tokens = [0], cached_text = None \<rparr>"

definition twice_text2 :: text_seq where
  "twice_text2 = \<lparr> tokens = [0, 0], cached_text = None \<rparr>"

definition twice_cleared :: store where
  "twice_cleared = clear_alignment (clear_alignment twice_store twice_text1) twice_text2"

definition twice_S :: score_matrix where
  "twice_S = [[0, - 1, - 2], [- 1, 1, 0]]"

definition twice_T :: traceback_matrix where
  "twice_T = [[[], ''L'', ''L''], [''U'', ''D'', ''DL'']]"

text \<open>A sequence that consists of a gap placeholder, as an aligned sequence may, and the
  sequence \<open>big cat\<close>.\<close>

definition gap_store :: store where
  "gap_store = \<lparr> heap = (\<lambda>_. new_token Token [])
      (0 := new_token Spacer [], 1 := new_token Word ''big'', 2 := new_token Word ''cat''),
      next_addr = 3 \<rparr>"

definition gap_text1 :: text_seq where
  "gap_text1 = \<lparr> tokens = [0], cached_text = None \<rparr>"

definition gap_text2 :: text_seq where
  "gap_text2 = \<lparr> tokens = [1, 2], cached_text = None \<rparr>"

definition gap_cleared :: store where
  "gap_cleared = clear_alignment (clear_alignment gap_store gap_text1) gap_text2"

definition gap_S :: score_matrix where
  "gap_S = [[0, - 1, - 2], [- 1, - 1, - 2]]"

definition gap_T :: traceback_matrix where
  "gap_T = [[[], ''L'', ''L''], [''U'', ''D'', ''DL'']]"

text \<open>The kind and the text of every token of a sequence, and what a result shows of the
  kinds and texts of its two sequences.\<close>

definition kinds :: "(addr \<Rightarrow> token) \<Rightarrow> addr list \<Rightarrow> (token_class \<times> string) list" where
  "kinds h as = map (\<lambda>a. (cls (h a), tok_text (h a))) as"

definition kinds2 :: "walk_state \<Rightarrow> (token_class \<times> string) list \<times> (token_class \<times> string) list" where
  "kinds2 = (\<lambda>(\<sigma>, A1, A2). (kinds (heap \<sigma>) (tokens A1), kinds (heap \<sigma>) (tokens A2)))"

definition shown :: "error + walk_state
    \<Rightarrow> error + (token_class \<times> string) list \<times> (token_class \<times> string) list" where
  "shown r = (case r of Inl e \<Rightarrow> Inl e | Inr st \<Rightarrow> Inr (kinds2 st))"

text \<open>The two aligned sequences that a list of moves from cell \<open>(i, j)\<close> lays out, token by
  token, in front of \<open>out\<close>: \<open>k1\<close> and \<open>k2\<close> are the kinds and texts of the two input
  sequences, and a gap is a \<open>Spacer\<close> with the empty text.\<close>

fun lay :: "move list \<Rightarrow> (token_class \<times> string) list \<Rightarrow> (token_class \<times> string) list \<Rightarrow> nat \<Rightarrow> nat
    \<Rightarrow> (token_class \<times> string) list \<times> (token_class \<times> string) list
    \<Rightarrow> (token_class \<times> string) list \<times> (token_class \<times> string) list" where
  "lay [] k1 k2 i j out = out"
| "lay (Diagonal # ms) k1 k2 i j out =
     lay ms k1 k2 (i - 1) (j - 1) (k1 ! (i - 1) # fst out, k2 ! (j - 1) # snd out)"
| "lay (Up # ms) k1 k2 i j out =
     lay ms k1 k2 (i - 1) j (k1 ! (i - 1) # fst out, (Spacer, []) # snd out)"
| "lay (Left # ms) k1 k2 i j out =
     lay ms k1 k2 i (j - 1) ((Spacer, []) # fst out, k2 ! (j - 1) # snd out)"

text \<open>What the walk keeps true of its state: every token object in sight was allocated,
  and the input tokens have the kinds and texts \<open>k1\<close> and \<open>k2\<close>, none of them a
  \<open>Spacer\<close>.\<close>

definition laid_out :: "addr list \<Rightarrow> addr list \<Rightarrow> (token_class \<times> string) list
    \<Rightarrow> (token_class \<times> string) list \<Rightarrow> walk_state \<Rightarrow> bool" where
  "laid_out s1 s2 k1 k2 = (\<lambda>(\<sigma>, A1, A2).
       (\<forall>a \<in> set s1 \<union> set s2 \<union> set (tokens A1) \<union> set (tokens A2). a < next_addr \<sigma>)
     \<and> kinds (heap \<sigma>) s1 = k1 \<and> kinds (heap \<sigma>) s2 = k2
     \<and> (\<forall>a \<in> set s1 \<union> set s2. cls (heap \<sigma> a) \<noteq> Spacer))"

section \<open>Basic facts about the container and the walk\<close>

lemma recalc_loop_other [simp]: "a \<notin> set as \<Longrightarrow> recalc_loop h as i st a = h a"
  by (induction as arbitrary: h i st) (auto simp: Let_def)

lemma recalc_loop_fields [simp]:
  "cls (recalc_loop h as i st a) = cls (h a)"
  "tok_text (recalc_loop h as i st a) = tok_text (h a)"
  "aligned (recalc_loop h as i st a) = aligned (h a)"
  "alignment_spaces (recalc_loop h as i st a) = alignment_spaces (h a)"
  "color (recalc_loop h as i st a) = color (h a)"
  "bg (recalc_loop h as i st a) = bg (h a)"
  "original (recalc_loop h as i st a) = original (h a)"
  "operation (recalc_loop h as i st a) = operation (h a)"
  by (induction as arbitrary: h i st; simp add: Let_def)+

declare recalc_loop.simps [simp del]

lemma recalculate_indices_eq:
  "recalculate_indices \<sigma> t =
     (\<sigma>\<lparr> heap := recalc_loop (heap \<sigma>) (tokens t) 0 0 \<rparr>,
      t\<lparr> cached_text := Some (to_string (recalc_loop (heap \<sigma>) (tokens t) 0 0) (tokens t)) \<rparr>)"
  by (simp add: recalculate_indices_def Let_def)

lemma text_insert0_eq:
  "text_insert0 \<sigma> t a =
     (\<sigma>\<lparr> heap := recalc_loop (heap \<sigma>) (a # tokens t) 0 0 \<rparr>,
      t\<lparr> tokens := a # tokens t,
         cached_text := Some (to_string (recalc_loop (heap \<sigma>) (a # tokens t) 0 0) (a # tokens t)) \<rparr>)"
  by (simp add: text_insert0_def recalculate_indices_def insert0_def Let_def)

lemma tokens_diag_move:
  "diag_move (\<sigma>, A1, A2) x y = (\<sigma>', B1, B2) \<Longrightarrow> tokens B1 = x # tokens A1 \<and> tokens B2 = y # tokens A2"
  by (auto simp: diag_move_def text_insert0_eq)

lemma tokens_up_move:
  "up_move (\<sigma>, A1, A2) x y = (\<sigma>', B1, B2) \<Longrightarrow>
     tokens B1 = x # tokens A1 \<and> (\<exists>sp. tokens B2 = sp # tokens A2 \<and> cls (heap \<sigma>' sp) = Spacer)"
  by (auto simp: up_move_def text_insert0_eq spacer_for_def alloc_def isinstance_def new_token_def
      split: if_splits)

lemma tokens_left_move:
  "left_move (\<sigma>, A1, A2) x y = (\<sigma>', B1, B2) \<Longrightarrow>
     tokens B2 = y # tokens A2 \<and> (\<exists>sp. tokens B1 = sp # tokens A1 \<and> cls (heap \<sigma>' sp) = Spacer)"
  by (auto simp: left_move_def text_insert0_eq spacer_for_def alloc_def isinstance_def new_token_def
      split: if_splits)

text \<open>One iteration of the loop, once the three reads have succeeded.\<close>

lemma walk_unfold:
  assumes "py_nth2 T i j = Inr trace"
    and "py_nth s1 (if i > 0 then i - 1 else 0) = Inr token1"
    and "py_nth s2 (if j > 0 then j - 1 else 0) = Inr token2"
  shows "walk T s1 s2 i j st =
     (if CHR ''D'' \<in> set trace \<and> i > 0 \<and> j > 0
        then walk T s1 s2 (i - 1) (j - 1) (diag_move st token1 token2)
      else if CHR ''U'' \<in> set trace \<and> i > 0
        then walk T s1 s2 (i - 1) j (up_move st token1 token2)
      else if CHR ''L'' \<in> set trace \<and> j > 0
        then walk T s1 s2 i (j - 1) (left_move st token1 token2)
      else Inr st)"
  by (subst walk.simps) (simp add: assms)

lemma walk_Inr_lookups:
  assumes "walk T s1 s2 i j st = Inr st'"
  obtains trace token1 token2 where "py_nth2 T i j = Inr trace"
    and "py_nth s1 (if i > 0 then i - 1 else 0) = Inr token1"
    and "py_nth s2 (if j > 0 then j - 1 else 0) = Inr token2"
  using assms by (subst (asm) walk.simps) (auto split: sum.splits)

text \<open>A property of the walk's state that every move keeps holds of the result.\<close>

lemma walk_invariant:
  assumes "walk T s1 s2 i j st = Inr st'" and "I st"
    and "\<And>st x y. I st \<Longrightarrow> I (diag_move st x y)"
    and "\<And>st x y. I st \<Longrightarrow> I (up_move st x y)"
    and "\<And>st x y. I st \<Longrightarrow> I (left_move st x y)"
  shows "I st'"
  using assms(1,2)
proof (induction T s1 s2 i j st rule: walk.induct)
  case (1 T s1 s2 i j st)
  from "1.prems"(1) obtain trace token1 token2 where
    tr: "py_nth2 T i j = Inr trace" and t1: "py_nth s1 (if i > 0 then i - 1 else 0) = Inr token1"
    and t2: "py_nth s2 (if j > 0 then j - 1 else 0) = Inr token2"
    by (rule walk_Inr_lookups)
  note IH = "1.IH"[OF tr t1 t2]
  note w = walk_unfold[OF tr t1 t2, of st]
  consider (D) "CHR ''D'' \<in> set trace \<and> i > 0 \<and> j > 0"
    | (U) "\<not> (CHR ''D'' \<in> set trace \<and> i > 0 \<and> j > 0)" "CHR ''U'' \<in> set trace \<and> i > 0"
    | (L) "\<not> (CHR ''D'' \<in> set trace \<and> i > 0 \<and> j > 0)" "\<not> (CHR ''U'' \<in> set trace \<and> i > 0)"
          "CHR ''L'' \<in> set trace \<and> j > 0"
    | (B) "\<not> (CHR ''D'' \<in> set trace \<and> i > 0 \<and> j > 0)" "\<not> (CHR ''U'' \<in> set trace \<and> i > 0)"
          "\<not> (CHR ''L'' \<in> set trace \<and> j > 0)"
    by blast
  then show ?case
  proof cases
    case D
    have "walk T s1 s2 i j st = walk T s1 s2 (i - 1) (j - 1) (diag_move st token1 token2)"
      using D by (auto simp: w)
    with "1.prems"(1) have "walk T s1 s2 (i - 1) (j - 1) (diag_move st token1 token2) = Inr st'"
      by simp
    then show ?thesis
      by (rule IH(1)[OF D]) (rule assms(3)[OF "1.prems"(2)])
  next
    case U
    have "walk T s1 s2 i j st = walk T s1 s2 (i - 1) j (up_move st token1 token2)"
      using U by (auto simp: w)
    with "1.prems"(1) have "walk T s1 s2 (i - 1) j (up_move st token1 token2) = Inr st'"
      by simp
    then show ?thesis
      by (rule IH(2)[OF U]) (rule assms(4)[OF "1.prems"(2)])
  next
    case L
    have "walk T s1 s2 i j st = walk T s1 s2 i (j - 1) (left_move st token1 token2)"
      using L by (auto simp: w)
    with "1.prems"(1) have "walk T s1 s2 i (j - 1) (left_move st token1 token2) = Inr st'"
      by simp
    then show ?thesis
      by (rule IH(3)[OF L]) (rule assms(5)[OF "1.prems"(2)])
  next
    case B
    then have "walk T s1 s2 i j st = Inr st" by (auto simp: w)
    with "1.prems" show ?thesis by simp
  qed
qed

lemma same_length_moves:
  assumes "same_length st"
  shows "same_length (diag_move st x y)" "same_length (up_move st x y)" "same_length (left_move st x y)"
  using assms
  by (auto simp: same_length_def diag_move_def up_move_def left_move_def text_insert0_eq
      split: prod.splits)

lemma walk_same_length:
  "walk T s1 s2 i j st = Inr st' \<Longrightarrow> same_length st \<Longrightarrow> same_length st'"
  by (erule walk_invariant) (auto intro: same_length_moves)

section \<open>The example, evaluated\<close>

lemma ex_fill:
  "fill_matrices default_scoring (heap ex_cleared) (tokens ex_text1) (tokens ex_text2) = Inr (ex_S, ex_T)"
  by code_simp

lemma ex_scorer:
  "needleman_wunsch_alignment_words_substring default_scoring ex_store ex_text1 ex_text2
     = Inr (ex_cleared, ex_S, ex_T)"
  unfolding needleman_wunsch_alignment_words_substring_def Let_def ex_cleared_def[symmetric] ex_fill
  by simp

lemma ex_align_view:
  "view (align_sentences ex_store ex_text1 ex_text2) =
     Inr ([(3, (new_token Spacer [])\<lparr> index := Some 0, start := Some 0, aligned := True,
                 alignment_spaces := 3, color := Some (COLOR_MAPPING Key_b) \<rparr>),
           (0, (new_token Word ''cat'')\<lparr> index := Some 1, start := Some 1, color := None \<rparr>)],
          [(1, (new_token Word ''big'')\<lparr> index := Some 0, start := Some 0, aligned := True,
                 color := Some (COLOR_MAPPING Key_b) \<rparr>),
           (2, (new_token Word ''cat'')\<lparr> index := Some 1, start := Some 4, color := None \<rparr>)])"
  unfolding align_sentences_def ex_scorer sum.case prod.case
  by code_simp

lemma ex_align_Inr:
  obtains \<sigma>' a1 a2 where "align_sentences ex_store ex_text1 ex_text2 = Inr (\<sigma>', a1, a2)"
    and "tokens a1 = [3, 0]" and "tokens a2 = [1, 2]"
  using ex_align_view
  by (cases "align_sentences ex_store ex_text1 ex_text2") (auto simp: view_def map_eq_Cons_conv)

section \<open>The reconstructor: errors, lengths, priority of the moves\<close>

text \<open>
  Claim C1.  Aligning two empty sequences is claimed to return two empty aligned sequences.
  The walk starts at cell \<open>(0, 0)\<close> and, before it looks at the trace, reads
  \<^verbatim>\<open>text1.tokens[0]\<close>, which does not exist: on two empty sequences
  \<^verbatim>\<open>align_sentences\<close> raises \<^verbatim>\<open>IndexError\<close>, whatever the store holds.
\<close>

theorem align_empty_sequences_IndexError:
  "align_sentences \<sigma> \<lparr> tokens = [], cached_text = c1 \<rparr> \<lparr> tokens = [], cached_text = c2 \<rparr> = Inl IndexError"
proof -
  have "walk [[[]]] [] [] 0 0 st = Inl IndexError" for st
    by (subst walk.simps) (simp add: py_nth_def py_nth2_def)
  then show ?thesis
    by (simp add: align_sentences_def needleman_wunsch_alignment_words_substring_def
        fill_matrices_def init_matrices_def init_row_def init_col_def clear_alignment_def
        get_alignment_and_visualization_words_def split: prod.splits)
qed

text \<open>
  Claim C2.  Whenever \<^verbatim>\<open>align_sentences\<close> returns, its two aligned sequences have the
  same number of tokens: every move of the walk inserts one token into each of them.
\<close>

theorem align_equal_length:
  assumes "align_sentences \<sigma> text1 text2 = Inr (\<sigma>', aligned_a, aligned_b)"
  shows "length (tokens aligned_a) = length (tokens aligned_b)"
proof -
  from assms obtain \<sigma>1 S T \<sigma>2 A1 A2 where
    g: "get_alignment_and_visualization_words \<sigma>1 text1 text2 T = Inr (\<sigma>2, A1, A2)"
    and a: "tokens aligned_a = tokens A1" "tokens aligned_b = tokens A2"
    by (auto simp: align_sentences_def recalculate_indices_eq split: sum.splits prod.splits)
  from g obtain \<sigma>0 E1 E2 \<sigma>3 where
    w: "walk T (tokens text1) (tokens text2) (length (tokens text1)) (length (tokens text2)) (\<sigma>0, E1, E2) = Inr (\<sigma>3, A1, A2)"
    and e: "tokens E1 = []" "tokens E2 = []"
    by (auto simp: get_alignment_and_visualization_words_def empty_Text_def recalculate_indices_eq
        split: sum.splits prod.splits)
  have "same_length (\<sigma>0, E1, E2)" by (simp add: same_length_def e)
  with w have "same_length (\<sigma>3, A1, A2)" by (rule walk_same_length)
  then show ?thesis by (simp add: same_length_def a)
qed

theorem align_equal_length_witness:
  "\<exists>\<sigma>' a b. align_sentences ex_store ex_text1 ex_text2 = Inr (\<sigma>', a, b)
      \<and> length (tokens a) = length (tokens b) \<and> length (tokens a) = 2"
proof -
  obtain \<sigma>' a1 a2 where r: "align_sentences ex_store ex_text1 ex_text2 = Inr (\<sigma>', a1, a2)"
    and t: "tokens a1 = [3, 0]"
    by (rule ex_align_Inr)
  from align_equal_length[OF r] r t show ?thesis by simp
qed


text \<open>
  Claim C5.  At a cell whose trace, \<open>token1\<close> and \<open>token2\<close> have been read, the walk takes
  the diagonal move when \<open>D\<close> is in the trace and \<open>i > 0\<close> and \<open>j > 0\<close>, whatever other
  tags there are; otherwise the up move when \<open>U\<close> is in the trace and \<open>i > 0\<close>; otherwise the
  left move when \<open>L\<close> is in the trace and \<open>j > 0\<close>; otherwise it stops.  The diagonal move
  puts \<open>token1\<close> and \<open>token2\<close> in front of the two aligned sequences, the up move puts
  \<open>token1\<close> in front of the first and a \<open>Spacer\<close> in front of the second, the left move
  a \<open>Spacer\<close> in front of the first and \<open>token2\<close> in front of the second.
\<close>

theorem traceback_priority_order:
  assumes "py_nth2 T i j = Inr trace"
    and "py_nth s1 (if i > 0 then i - 1 else 0) = Inr token1"
    and "py_nth s2 (if j > 0 then j - 1 else 0) = Inr token2"
  shows "(CHR ''D'' \<in> set trace \<and> i > 0 \<and> j > 0 \<longrightarrow>
            walk T s1 s2 i j st = walk T s1 s2 (i - 1) (j - 1) (diag_move st token1 token2))
       \<and> (\<not> (CHR ''D'' \<in> set trace \<and> i > 0 \<and> j > 0) \<and> CHR ''U'' \<in> set trace \<and> i > 0 \<longrightarrow>
            walk T s1 s2 i j st = walk T s1 s2 (i - 1) j (up_move st token1 token2))
       \<and> (\<not> (CHR ''D'' \<in> set trace \<and> i > 0 \<and> j > 0) \<and> \<not> (CHR ''U'' \<in> set trace \<and> i > 0)
            \<and> CHR ''L'' \<in> set trace \<and> j > 0 \<longrightarrow>
            walk T s1 s2 i j st = walk T s1 s2 i (j - 1) (left_move st token1 token2))
       \<and> (\<not> (CHR ''D'' \<in> set trace \<and> i > 0 \<and> j > 0) \<and> \<not> (CHR ''U'' \<in> set trace \<and> i > 0)
            \<and> \<not> (CHR ''L'' \<in> set trace \<and> j > 0) \<longrightarrow>
            walk T s1 s2 i j st = Inr st)
       \<and> (\<forall>\<sigma> A1 A2 \<sigma>' B1 B2. diag_move (\<sigma>, A1, A2) token1 token2 = (\<sigma>', B1, B2) \<longrightarrow>
            tokens B1 = token1 # tokens A1 \<and> tokens B2 = token2 # tokens A2)
       \<and> (\<forall>\<sigma> A1 A2 \<sigma>' B1 B2. up_move (\<sigma>, A1, A2) token1 token2 = (\<sigma>', B1, B2) \<longrightarrow>
            tokens B1 = token1 # tokens A1
            \<and> (\<exists>sp. tokens B2 = sp # tokens A2 \<and> cls (heap \<sigma>' sp) = Spacer))
       \<and> (\<forall>\<sigma> A1 A2 \<sigma>' B1 B2. left_move (\<sigma>, A1, A2) token1 token2 = (\<sigma>', B1, B2) \<longrightarrow>
            tokens B2 = token2 # tokens A2
            \<and> (\<exists>sp. tokens B1 = sp # tokens A1 \<and> cls (heap \<sigma>' sp) = Spacer))"
proof -
  note w = walk_unfold[OF assms, of st]
  have 1: "CHR ''D'' \<in> set trace \<and> i > 0 \<and> j > 0 \<longrightarrow>
            walk T s1 s2 i j st = walk T s1 s2 (i - 1) (j - 1) (diag_move st token1 token2)"
    by (auto simp: w)
  have 2: "\<not> (CHR ''D'' \<in> set trace \<and> i > 0 \<and> j > 0) \<and> CHR ''U'' \<in> set trace \<and> i > 0 \<longrightarrow>
            walk T s1 s2 i j st = walk T s1 s2 (i - 1) j (up_move st token1 token2)"
    by (auto simp: w)
  have 3: "\<not> (CHR ''D'' \<in> set trace \<and> i > 0 \<and> j > 0) \<and> \<not> (CHR ''U'' \<in> set trace \<and> i > 0)
            \<and> CHR ''L'' \<in> set trace \<and> j > 0 \<longrightarrow>
            walk T s1 s2 i j st = walk T s1 s2 i (j - 1) (left_move st token1 token2)"
    by (auto simp: w)
  have 4: "\<not> (CHR ''D'' \<in> set trace \<and> i > 0 \<and> j > 0) \<and> \<not> (CHR ''U'' \<in> set trace \<and> i > 0)
            \<and> \<not> (CHR ''L'' \<in> set trace \<and> j > 0) \<longrightarrow>
            walk T s1 s2 i j st = Inr st"
    by (auto simp: w)
  have 5: "\<forall>\<sigma> A1 A2 \<sigma>' B1 B2. diag_move (\<sigma>, A1, A2) token1 token2 = (\<sigma>', B1, B2) \<longrightarrow>
            tokens B1 = token1 # tokens A1 \<and> tokens B2 = token2 # tokens A2"
    using tokens_diag_move by blast
  have 6: "\<forall>\<sigma> A1 A2 \<sigma>' B1 B2. up_move (\<sigma>, A1, A2) token1 token2 = (\<sigma>', B1, B2) \<longrightarrow>
            tokens B1 = token1 # tokens A1
            \<and> (\<exists>sp. tokens B2 = sp # tokens A2 \<and> cls (heap \<sigma>' sp) = Spacer)"
    using tokens_up_move by blast
  have 7: "\<forall>\<sigma> A1 A2 \<sigma>' B1 B2. left_move (\<sigma>, A1, A2) token1 token2 = (\<sigma>', B1, B2) \<longrightarrow>
            tokens B2 = token2 # tokens A2
            \<and> (\<exists>sp. tokens B1 = sp # tokens A1 \<and> cls (heap \<sigma>' sp) = Spacer)"
    using tokens_left_move by blast
  from 1 2 3 4 5 6 7 show ?thesis by (intro conjI)
qed

theorem traceback_priority_order_witness:
  "walk tie_T [0] [1] 1 1 ex_state = walk tie_T [0] [1] 0 0 (diag_move ex_state 0 1)
   \<and> walk tie_T [0] [1] 1 0 ex_state = walk tie_T [0] [1] 0 0 (up_move ex_state 0 1)
   \<and> walk tie_T [0] [1] 0 1 ex_state = walk tie_T [0] [1] 0 0 (left_move ex_state 0 1)
   \<and> walk tie_T [0] [1] 0 0 ex_state = Inr ex_state"
proof -
  have a: "py_nth2 tie_T 1 1 = Inr ''DU''" "py_nth2 tie_T 1 0 = Inr ''U''"
    "py_nth2 tie_T 0 1 = Inr ''L''" "py_nth2 tie_T 0 0 = Inr []"
    by (simp_all add: tie_T_def py_nth2_def py_nth_def)
  have b: "py_nth [0::nat] (if (1::nat) > 0 then 1 - 1 else 0) = Inr 0"
    "py_nth [0::nat] (if (0::nat) > 0 then 0 - 1 else 0) = Inr 0"
    "py_nth [1::nat] (if (1::nat) > 0 then 1 - 1 else 0) = Inr 1"
    "py_nth [1::nat] (if (0::nat) > 0 then 0 - 1 else 0) = Inr 1"
    by (simp_all add: py_nth_def)
  show ?thesis
    using traceback_priority_order[OF a(1) b(1) b(3), of ex_state]
      traceback_priority_order[OF a(2) b(1) b(4), of ex_state]
      traceback_priority_order[OF a(3) b(2) b(3), of ex_state]
      traceback_priority_order[OF a(4) b(2) b(4), of ex_state]
    by simp
qed

section \<open>The tokenizer: what flattening gives back\<close>

lemma py_find_here:
  "py_find (pre @ u @ r) u (length pre) = Some (length pre)"
proof -
  have "[length pre ..< Suc (length (pre @ u @ r)) - length u]
        = length pre # [Suc (length pre) ..< Suc (length (pre @ u @ r)) - length u]"
    by (rule upt_conv_Cons) simp
  then show ?thesis by (simp add: py_find_def)
qed

lemma collect_ws_run:
  assumes "list_all py_isspace ws" and "r = [] \<or> \<not> py_isspace (hd r)"
  shows "collect_ws (pre @ ws @ r) (length pre) res = (length pre + length ws, res @ map (\<lambda>c. [c]) ws)"
  using assms(1)
proof (induction ws arbitrary: pre res)
  case Nil
  show ?case
  proof (cases r)
    case Nil
    then show ?thesis by (subst collect_ws.simps) simp
  next
    case (Cons c cs)
    with assms(2) have "\<not> py_isspace c" by simp
    with Cons show ?thesis by (subst collect_ws.simps) (simp add: nth_append)
  qed
next
  case (Cons c cs)
  have "collect_ws (pre @ (c # cs) @ r) (length pre) res
        = collect_ws ((pre @ [c]) @ cs @ r) (length (pre @ [c])) (res @ [[c]])"
    using Cons.prems by (subst collect_ws.simps) (simp add: nth_append)
  also have "\<dots> = (length (pre @ [c]) + length cs, (res @ [[c]]) @ map (\<lambda>c. [c]) cs)"
    using Cons.prems by (intro Cons.IH) simp
  finally show ?case by simp
qed

lemma segments_text_head:
  "well_segmented segs \<Longrightarrow> segments_text segs = [] \<or> \<not> py_isspace (hd (segments_text segs))"
  by (cases segs) (auto simp: well_segmented_def segments_text_def)

lemma tokenize_loop_segments:
  "well_segmented segs \<Longrightarrow>
     tokenize_loop (pre @ segments_text segs) (map fst segs) (length pre) res
       = Inr (res @ segments_units segs)"
proof (induction segs arbitrary: pre res)
  case Nil
  then show ?case by (simp add: segments_units_def)
next
  case (Cons seg segs)
  obtain u ws where seg: "seg = (u, ws)" by (cases seg)
  from Cons.prems have ws: "list_all py_isspace ws" and rest: "well_segmented segs"
    by (auto simp: well_segmented_def seg)
  define S where "S = pre @ segments_text (seg # segs)"
  have s: "S = pre @ u @ (ws @ segments_text segs)"
    by (simp add: S_def segments_text_def seg)
  have s': "S = (pre @ u @ ws) @ segments_text segs"
    by (simp add: s)
  have f: "py_find S u (length pre) = Some (length pre)"
    unfolding s by (rule py_find_here)
  have c: "collect_ws S (length pre + length u) (res @ [u])
           = (length (pre @ u @ ws), (res @ [u]) @ map (\<lambda>c. [c]) ws)"
    using collect_ws_run[OF ws segments_text_head[OF rest], of "pre @ u" "res @ [u]"]
    by (simp add: s)
  have "tokenize_loop S (map fst (seg # segs)) (length pre) res
        = tokenize_loop S (map fst segs) (length (pre @ u @ ws)) ((res @ [u]) @ map (\<lambda>c. [c]) ws)"
    by (simp add: seg f c del: append_assoc length_append)
  also have "\<dots> = Inr (((res @ [u]) @ map (\<lambda>c. [c]) ws) @ segments_units segs)"
    unfolding s' by (rule Cons.IH[OF rest])
  finally show ?case by (simp add: segments_units_def seg S_def)
qed

lemma concat_segments_units: "concat (segments_units segs) = segments_text segs"
  by (induction segs) (auto simp: segments_units_def segments_text_def)

lemma whitespace_tokenize_segments:
  assumes "well_segmented segs" and "word_tokenize (segments_text segs) = map fst segs"
  shows "whitespace_tokenize_from_nltk word_tokenize (segments_text segs) = Inr (segments_units segs)"
  using tokenize_loop_segments[OF assms(1), of "[]" "[]"]
  by (simp add: whitespace_tokenize_from_nltk_def assms(2))

lemma alloc_all_result:
  "alloc_all \<sigma> ts = (\<sigma>', as) \<Longrightarrow>
     as = [next_addr \<sigma> ..< next_addr \<sigma> + length ts]
     \<and> next_addr \<sigma>' = next_addr \<sigma> + length ts
     \<and> map (heap \<sigma>') as = ts
     \<and> (\<forall>a < next_addr \<sigma>. heap \<sigma>' a = heap \<sigma> a)"
proof (induction ts arbitrary: \<sigma> \<sigma>' as)
  case Nil
  then show ?case by simp
next
  case (Cons t ts)
  obtain \<sigma>1 a where a: "alloc \<sigma> t = (\<sigma>1, a)" by (cases "alloc \<sigma> t")
  obtain \<sigma>2 bs where b: "alloc_all \<sigma>1 ts = (\<sigma>2, bs)" by (cases "alloc_all \<sigma>1 ts")
  from Cons.prems a b have eq: "\<sigma>' = \<sigma>2" "as = a # bs" by simp_all
  from a have a': "a = next_addr \<sigma>" "next_addr \<sigma>1 = Suc (next_addr \<sigma>)"
    "heap \<sigma>1 = (heap \<sigma>)(next_addr \<sigma> := t)"
    by (auto simp: alloc_def)
  note IH = Cons.IH[OF b]
  have "heap \<sigma>2 a = t" using IH a' by simp
  moreover have "[next_addr \<sigma> ..< next_addr \<sigma> + length (t # ts)] = next_addr \<sigma> # [Suc (next_addr \<sigma>) ..< Suc (next_addr \<sigma>) + length ts]"
    by (subst upt_rec) simp
  ultimately show ?case using IH a' eq by auto
qed


lemma whitespace_token_class:
  assumes "py_isspace c"
  shows "create_token_class [c] =
     (if c = CHR '' '' then Whitespace else if c = CHR 0x0A \<or> c = CHR 0x09 then Special else Token)"
proof -
  have p: "[c] \<notin> PUNCTUATION_MARKS"
    using assms by (auto simp: PUNCTUATION_MARKS_def py_isspace_def)
  have d: "\<not> digit_char c"
    using assms by (auto simp: digit_char_def py_isspace_def Let_def)
  have w: "\<not> word_char c"
    using assms by (auto simp: word_char_def py_isspace_def Let_def)
  show ?thesis
    using p d w by (simp add: create_token_class_def py_isdigit_def word_pattern_match_def)
qed

text \<open>
  Claim C8, as amended.  Let the text be a concatenation of units, each followed by a run
  of whitespace characters (possibly empty), where no unit is empty or starts with
  whitespace, and let the word tokenizer return exactly these units.  Then the constructed
  sequence flattens to the text itself; its tokens are the units, and after each unit one
  token per whitespace character of its run, in order.  Such a one-character token is a
  \<open>Whitespace\<close> when the character is a space, a \<open>Special\<close> when it is a newline or a
  tab, and a plain \<open>Token\<close> for any other whitespace character.
\<close>

theorem tokenize_flatten_roundtrip:
  assumes "well_segmented segs" and "word_tokenize (segments_text segs) = map fst segs"
  shows "(\<exists>\<sigma>' t. Text_of_string word_tokenize \<sigma> (segments_text segs) = Inr (\<sigma>', t)
           \<and> to_string (heap \<sigma>') (tokens t) = segments_text segs
           \<and> map (\<lambda>a. tok_text (heap \<sigma>' a)) (tokens t) = segments_units segs
           \<and> map (\<lambda>a. cls (heap \<sigma>' a)) (tokens t) = map create_token_class (segments_units segs))
       \<and> (\<forall>c. py_isspace c \<longrightarrow> create_token_class [c] =
            (if c = CHR '' '' then Whitespace
             else if c = CHR 0x0A \<or> c = CHR 0x09 then Special else Token))"
proof -
  let ?units = "segments_units segs"
  obtain \<sigma>1 as where al: "alloc_all \<sigma> (map create_token ?units) = (\<sigma>1, as)"
    by (cases "alloc_all \<sigma> (map create_token ?units)")
  have h: "map (heap \<sigma>1) as = map create_token ?units"
    by (rule alloc_all_result[OF al, THEN conjunct2, THEN conjunct2, THEN conjunct1])
  define h2 where "h2 = recalc_loop (recalc_loop (heap \<sigma>1) as 0 0) as 0 0"
  define \<sigma>' where "\<sigma>' = \<sigma>1\<lparr> heap := h2 \<rparr>"
  define t where "t = \<lparr> tokens = as, cached_text = Some (to_string h2 as) \<rparr>"
  note wt = whitespace_tokenize_segments[where segs = segs and word_tokenize = word_tokenize,
      OF assms]
  have T: "Text_of_string word_tokenize \<sigma> (segments_text segs) = Inr (\<sigma>', t)"
    by (simp add: Text_of_string_def wt al recalculate_indices_eq \<sigma>'_def t_def h2_def)
  have tx: "map (\<lambda>a. tok_text (heap \<sigma>' a)) (tokens t) = ?units"
  proof -
    have "map (\<lambda>a. tok_text (heap \<sigma>' a)) (tokens t) = map tok_text (map (heap \<sigma>1) as)"
      by (simp add: \<sigma>'_def t_def h2_def)
    then show ?thesis by (simp add: h create_token_def new_token_def comp_def)
  qed
  have cl: "map (\<lambda>a. cls (heap \<sigma>' a)) (tokens t) = map create_token_class ?units"
  proof -
    have "map (\<lambda>a. cls (heap \<sigma>' a)) (tokens t) = map cls (map (heap \<sigma>1) as)"
      by (simp add: \<sigma>'_def t_def h2_def)
    then show ?thesis by (simp add: h create_token_def new_token_def comp_def)
  qed
  have "to_string (heap \<sigma>') (tokens t) = concat (map (\<lambda>a. tok_text (heap \<sigma>' a)) (tokens t))"
    by (simp add: to_string_def)
  then have fl: "to_string (heap \<sigma>') (tokens t) = segments_text segs"
    by (simp only: tx concat_segments_units)
  from T fl tx cl whitespace_token_class show ?thesis by blast
qed

theorem tokenize_flatten_roundtrip_witness:
  "to_plain_string (Text_of_string plain_word_tokenize empty_store ''the cat  sat'') = Inr ''the cat  sat''
   \<and> token_classes (Text_of_string plain_word_tokenize empty_store ''the cat  sat'')
       = Inr [Word, Whitespace, Word, Whitespace, Whitespace, Word]"
proof -
  define segs where "segs = [(''the'', '' ''), (''cat'', ''  ''), (''sat'', [])]"
  have a: "well_segmented segs" unfolding segs_def by code_simp
  have s: "segments_text segs = ''the cat  sat''" unfolding segs_def by code_simp
  have b: "plain_word_tokenize (segments_text segs) = map fst segs" unfolding segs_def by code_simp
  have u: "map create_token_class (segments_units segs) = [Word, Whitespace, Word, Whitespace, Whitespace, Word]"
    unfolding segs_def by code_simp
  from tokenize_flatten_roundtrip[where segs = segs and word_tokenize = plain_word_tokenize
      and \<sigma> = empty_store, OF a b] show ?thesis
    unfolding s u by (auto simp: to_plain_string_def token_classes_def)
qed

text \<open>
  Claim C8 as stated fails: whitespace before the first unit is skipped by the search for
  that unit and never becomes a token, so \<open>'' a''\<close> flattens to \<open>''a''\<close>; and a newline
  between two words is kept as a \<open>Special\<close> token, not a \<open>Whitespace\<close> token.
\<close>

theorem leading_whitespace_and_newline:
  "to_plain_string (Text_of_string plain_word_tokenize empty_store '' a'') = Inr ''a''
   \<and> token_classes (Text_of_string plain_word_tokenize empty_store [CHR ''a'', CHR 0x0A, CHR ''b''])
       = Inr [Word, Special, Word]"
  by code_simp

section \<open>The scorer: the mismatch branch\<close>

lemma mismatch_score_adjusted_Inr:
  "(mismatch_score_adjusted P token1 to_match1 token2 = Inr c) =
     (0 < max (length (tok_text to_match1)) (length (tok_text token2))
      \<and> c = mismatch_score P
            + (of_nat (length (longest_common_substring (tok_text to_match1) (tok_text token2)))
               / of_nat (max (length (tok_text to_match1)) (length (tok_text token2))))
              * substring_match_score P
            + (if isinstance (cls token1) (cls token2)
                  \<and> max (length (tok_text to_match1)) (length (tok_text token2)) > 1
               then type_match_score P else 0))"
proof -
  define m where "m = max (length (tok_text to_match1)) (length (tok_text token2))"
  show ?thesis
    unfolding mismatch_score_adjusted_def Let_def m_def[symmetric]
    by (cases "m = 0") auto
qed

text \<open>What the code adds in the mismatch branch: the class test is \<^verbatim>\<open>isinstance\<close>, so
  the bonus is given when the classes are equal and also whenever \<open>token2\<close> is a plain
  \<open>Token\<close>.\<close>

lemma type_bonus_of_the_code:
  assumes "mismatch_score_adjusted P token1 to_match1 token2 = Inr c"
  shows "c = mismatch_score P
       + (of_nat (length (longest_common_substring (tok_text to_match1) (tok_text token2)))
          / of_nat (max (length (tok_text to_match1)) (length (tok_text token2))))
         * substring_match_score P
       + (if (cls token2 = Token \<or> cls token1 = cls token2)
             \<and> max (length (tok_text to_match1)) (length (tok_text token2)) > 1
          then type_match_score P else 0)"
  using assms by (simp add: mismatch_score_adjusted_Inr isinstance_def)

lemma original_bonus_of_the_code:
  assumes "original token1 = Some oa"
  shows "original_match P h token1 token2 =
       (if tok_text (h oa) = tok_text token2 then original_match_score P else 0)
       + (if cls token2 = Token \<or> cls (h oa) = cls token2 then type_match_score P else 0)"
  using assms by (simp add: original_match_def isinstance_def)

text \<open>
  Claim C6.  The claim gives the type bonus exactly to two tokens of the same kind (with a
  compared text longer than one character).  The code gives it to the \<open>Word\<close> token
  \<open>ab\<close> against the plain \<open>Token\<close> \<open>@\<close>, two different kinds, and does not give
  it when the two tokens change places.
\<close>

theorem type_bonus_for_different_kinds:
  "cls tok_ab = Word \<and> cls tok_at = Token
   \<and> mismatch_score_adjusted default_scoring tok_ab tok_ab tok_at
       = Inr (mismatch_score default_scoring + type_match_score default_scoring)
   \<and> mismatch_score_adjusted default_scoring tok_at tok_at tok_ab
       = Inr (mismatch_score default_scoring)"
  by code_simp




section \<open>Tables as lists of rows\<close>

lemma rect_replicate [simp]: "rect r c (replicate r (replicate c x))"
  by (simp add: rect_def)

lemma rect_row: "rect r c M \<Longrightarrow> i < r \<Longrightarrow> length (M ! i) = c"
  by (auto simp: rect_def)

lemma rect_update: "rect r c M \<Longrightarrow> rect r c (M[i := (M ! i)[j := v]])"
proof (cases "i < length M")
  case True
  assume "rect r c M"
  with True show ?thesis
    by (auto simp: rect_def dest!: set_update_subset_insert[THEN subsetD])
next
  case False
  assume "rect r c M"
  with False show ?thesis by (simp add: not_less list_update_beyond)
qed

lemma nth2_update:
  assumes "rect r c M" and "i < r" and "j < c"
  shows "M[i := (M ! i)[j := v]] ! i' ! j' = (if i' = i \<and> j' = j then v else M ! i' ! j')"
proof (cases "i' = i")
  case True
  with assms show ?thesis by (simp add: rect_def nth_list_update)
next
  case False
  then show ?thesis by simp
qed

lemma fold_invariant:
  assumes "I s" and "\<And>x s. x \<in> set xs \<Longrightarrow> I s \<Longrightarrow> I (f x s)"
  shows "I (fold f xs s)"
  using assms by (induction xs arbitrary: s) auto

section \<open>The longest common substring is a common substring\<close>

lemma csuf_0: "i \<le> length s1 \<Longrightarrow> j \<le> length s2 \<Longrightarrow> csuf s1 s2 0 i j"
  by (simp add: csuf_def)

lemma csuf_Suc:
  assumes "csuf s1 s2 k (i - 1) (j - 1)" and "0 < i" and "0 < j"
    and "i \<le> length s1" and "j \<le> length s2" and "s1 ! (i - 1) = s2 ! (j - 1)"
  shows "csuf s1 s2 (Suc k) i j"
proof -
  from assms(1) have k: "k \<le> i - 1" "k \<le> j - 1"
    and eq: "take k (drop (i - 1 - k) s1) = take k (drop (j - 1 - k) s2)"
    by (simp_all add: csuf_def)
  have a: "take (Suc k) (drop (i - Suc k) s1) = take k (drop (i - 1 - k) s1) @ [s1 ! (i - 1)]"
    using k(1) assms(2,4) by (simp add: take_Suc_conv_app_nth)
  have b: "take (Suc k) (drop (j - Suc k) s2) = take k (drop (j - 1 - k) s2) @ [s2 ! (j - 1)]"
    using k(2) assms(3,5) by (simp add: take_Suc_conv_app_nth)
  have "Suc k \<le> i" "Suc k \<le> j" using k assms(2,3) by linarith+
  then show ?thesis
    unfolding csuf_def a b using assms(4-6) eq by simp
qed

lemma lcs_cell_inv:
  assumes "lcs_inv s1 s2 st" and "1 \<le> i" "i \<le> length s1" and "1 \<le> j" "j \<le> length s2"
  shows "lcs_inv s1 s2 (lcs_cell s1 s2 i j st)"
proof -
  obtain dp len row where st: "st = (dp, len, row)" by (cases st)
  from assms(1) have r: "rect (length s1 + 1) (length s2 + 1) dp"
    and c: "\<And>i j. i \<le> length s1 \<Longrightarrow> j \<le> length s2 \<Longrightarrow> csuf s1 s2 (dp ! i ! j) i j"
    and l: "len = 0 \<or> (\<exists>j. csuf s1 s2 len row j)"
    by (auto simp: lcs_inv_def st)
  have cells: "\<forall>i' \<le> length s1. \<forall>j' \<le> length s2. csuf s1 s2 (dp[i := (dp ! i)[j := v]] ! i' ! j') i' j'"
    if "csuf s1 s2 v i j" for v
    using that c assms(2-5) by (simp add: nth2_update[OF r])
  show ?thesis
  proof (cases "s1 ! (i - 1) = s2 ! (j - 1)")
    case True
    have "csuf s1 s2 (dp ! (i - 1) ! (j - 1)) (i - 1) (j - 1)"
      using assms(2-5) by (intro c) simp_all
    then have v: "csuf s1 s2 (dp ! (i - 1) ! (j - 1) + 1) i j"
      using csuf_Suc[OF _ _ _ assms(3) assms(5) True] assms(2,4) by simp
    show ?thesis
      using True cells[OF v] l v rect_update[OF r]
      by (auto simp: lcs_inv_def lcs_cell_def st Let_def)
  next
    case False
    have v: "csuf s1 s2 0 i j" using assms(3,5) by (rule csuf_0)
    show ?thesis
      using False cells[OF v] l rect_update[OF r]
      by (auto simp: lcs_inv_def lcs_cell_def st)
  qed
qed

lemma lcs_loops_inv: "lcs_inv s1 s2 (lcs_loops s1 s2)"
proof -
  have "replicate (length s1 + 1) (replicate (length s2 + 1) (0::nat)) ! i ! j = 0"
    if "i \<le> length s1" "j \<le> length s2" for i j
    using that by (simp del: replicate_Suc replicate.simps)
  then have init: "lcs_inv s1 s2 (replicate (length s1 + 1) (replicate (length s2 + 1) 0), 0, 0)"
    unfolding lcs_inv_def by (simp add: csuf_0 del: replicate_Suc replicate.simps)
  show ?thesis
    unfolding lcs_loops_def Let_def
  proof (rule fold_invariant[where I = "lcs_inv s1 s2"])
    show "lcs_inv s1 s2 (replicate (length s1 + 1) (replicate (length s2 + 1) 0), 0, 0)"
      by (rule init)
  next
    fix i st
    assume i: "i \<in> set [1 ..< length s1 + 1]" and st: "lcs_inv s1 s2 st"
    show "lcs_inv s1 s2 (fold (lcs_cell s1 s2 i) [1 ..< length s2 + 1] st)"
      using st
    proof (rule fold_invariant[where I = "lcs_inv s1 s2"])
      fix j st'
      assume "j \<in> set [1 ..< length s2 + 1]" and "lcs_inv s1 s2 st'"
      with i show "lcs_inv s1 s2 (lcs_cell s1 s2 i j st')"
        by (intro lcs_cell_inv) auto
    qed
  qed
qed

lemma length_longest_common_substring:
  obtains len row j where "length (longest_common_substring s1 s2) = len"
    and "len = 0 \<or> csuf s1 s2 len row j"
proof -
  obtain dp len row where L: "lcs_loops s1 s2 = (dp, len, row)" by (cases "lcs_loops s1 s2")
  with lcs_loops_inv[of s1 s2] have l: "len = 0 \<or> (\<exists>j. csuf s1 s2 len row j)"
    by (simp add: lcs_inv_def)
  show ?thesis
  proof (cases "len = 0")
    case True
    then have "length (longest_common_substring s1 s2) = len"
      by (simp add: longest_common_substring_def L)
    with True that show ?thesis by blast
  next
    case False
    with l obtain j where j: "csuf s1 s2 len row j" by blast
    then have "len \<le> row" "row \<le> length s1" by (simp_all add: csuf_def)
    then have "length (longest_common_substring s1 s2) = len"
      using False by (simp add: longest_common_substring_def L py_slice_def)
    with j that show ?thesis by blast
  qed
qed

lemma longest_common_substring_less:
  assumes "s1 \<noteq> s2"
  shows "length (longest_common_substring s1 s2) < max (length s1) (length s2)"
proof -
  obtain len row j where len: "length (longest_common_substring s1 s2) = len"
    and c: "len = 0 \<or> csuf s1 s2 len row j"
    by (rule length_longest_common_substring)
  show ?thesis
  proof (cases "len = 0")
    case True
    with assms len show ?thesis by (cases s1; cases s2) auto
  next
    case False
    with c have k: "len \<le> row" "len \<le> j" "row \<le> length s1" "j \<le> length s2"
      and eq: "take len (drop (row - len) s1) = take len (drop (j - len) s2)"
      by (simp_all add: csuf_def)
    show ?thesis
    proof (rule ccontr)
      assume "\<not> ?thesis"
      with len k have "len = length s1" "len = length s2" "row = len" "j = len" by auto
      with eq have "s1 = s2" by simp
      with assms show False by contradiction
    qed
  qed
qed

section \<open>The scorer: the matrices it returns\<close>

lemma foldE_append:
  "foldE f (xs @ ys) s = (case foldE f xs s of Inl e \<Rightarrow> Inl e | Inr s' \<Rightarrow> foldE f ys s')"
  by (induction xs arbitrary: s) (auto split: sum.splits)

lemma foldE_upt_Suc:
  "a \<le> k \<Longrightarrow> foldE f [a ..< Suc k] s = (case foldE f [a ..< k] s of Inl e \<Rightarrow> Inl e | Inr s' \<Rightarrow> f k s')"
  by (simp add: foldE_append split: sum.splits)

lemma fold_init_col:
  assumes "rect (n + 1) (m + 1) S" and "rect (n + 1) (m + 1) T" and "k \<le> n + 1"
  shows "\<exists>S' T'. fold (init_col P) [0 ..< k] (S, T) = (S', T')
     \<and> rect (n + 1) (m + 1) S' \<and> rect (n + 1) (m + 1) T'
     \<and> (\<forall>i j. S' ! i ! j = (if j = 0 \<and> i < k then gap_score P * of_nat i else S ! i ! j))
     \<and> (\<forall>i j. T' ! i ! j = (if j = 0 \<and> 0 < i \<and> i < k then ''U'' else T ! i ! j))"
  using assms(3)
proof (induction k)
  case 0
  with assms show ?case by simp
next
  case (Suc k)
  then obtain S1 T1 where f: "fold (init_col P) [0 ..< k] (S, T) = (S1, T1)"
    and r: "rect (n + 1) (m + 1) S1" "rect (n + 1) (m + 1) T1"
    and s: "\<And>i j. S1 ! i ! j = (if j = 0 \<and> i < k then gap_score P * of_nat i else S ! i ! j)"
    and t: "\<And>i j. T1 ! i ! j = (if j = 0 \<and> 0 < i \<and> i < k then ''U'' else T ! i ! j)"
    by auto
  from Suc.prems have k: "k < n + 1" by simp
  have zc: "(0::nat) < m + 1" by simp
  let ?S' = "S1[k := (S1 ! k)[0 := gap_score P * of_nat k]]"
  let ?T' = "if 0 < k then T1[k := (T1 ! k)[0 := ''U'']] else T1"
  have step: "fold (init_col P) [0 ..< Suc k] (S, T) = (?S', ?T')"
    by (simp add: f init_col_def)
  have rs: "rect (n + 1) (m + 1) ?S'" "rect (n + 1) (m + 1) ?T'"
    using r by (simp_all add: rect_update)
  have a: "\<forall>i j. ?S' ! i ! j = (if j = 0 \<and> i < Suc k then gap_score P * of_nat i else S ! i ! j)"
    by (auto simp: nth2_update[OF r(1) k zc] s less_Suc_eq)
  have b: "\<forall>i j. ?T' ! i ! j = (if j = 0 \<and> 0 < i \<and> i < Suc k then ''U'' else T ! i ! j)"
    by (auto simp: nth2_update[OF r(2) k zc] t less_Suc_eq)
  from step rs a b show ?case by blast
qed

lemma fold_init_row:
  assumes "rect (n + 1) (m + 1) S" and "rect (n + 1) (m + 1) T" and "k \<le> m + 1"
  shows "\<exists>S' T'. fold (init_row P) [0 ..< k] (S, T) = (S', T')
     \<and> rect (n + 1) (m + 1) S' \<and> rect (n + 1) (m + 1) T'
     \<and> (\<forall>i j. S' ! i ! j = (if i = 0 \<and> j < k then gap_score P * of_nat j else S ! i ! j))
     \<and> (\<forall>i j. T' ! i ! j = (if i = 0 \<and> 0 < j \<and> j < k then ''L'' else T ! i ! j))"
  using assms(3)
proof (induction k)
  case 0
  with assms show ?case by simp
next
  case (Suc k)
  then obtain S1 T1 where f: "fold (init_row P) [0 ..< k] (S, T) = (S1, T1)"
    and r: "rect (n + 1) (m + 1) S1" "rect (n + 1) (m + 1) T1"
    and s: "\<And>i j. S1 ! i ! j = (if i = 0 \<and> j < k then gap_score P * of_nat j else S ! i ! j)"
    and t: "\<And>i j. T1 ! i ! j = (if i = 0 \<and> 0 < j \<and> j < k then ''L'' else T ! i ! j)"
    by auto
  from Suc.prems have k: "k < m + 1" by simp
  have z: "(0::nat) < n + 1" by simp
  let ?S' = "S1[0 := (S1 ! 0)[k := gap_score P * of_nat k]]"
  let ?T' = "if 0 < k then T1[0 := (T1 ! 0)[k := ''L'']] else T1"
  have step: "fold (init_row P) [0 ..< Suc k] (S, T) = (?S', ?T')"
    by (simp add: f init_row_def)
  have rs: "rect (n + 1) (m + 1) ?S'" "rect (n + 1) (m + 1) ?T'"
    using r by (simp_all add: rect_update)
  have a: "\<forall>i j. ?S' ! i ! j = (if i = 0 \<and> j < Suc k then gap_score P * of_nat j else S ! i ! j)"
    by (auto simp: nth2_update[OF r(1) z k] s less_Suc_eq)
  have b: "\<forall>i j. ?T' ! i ! j = (if i = 0 \<and> 0 < j \<and> j < Suc k then ''L'' else T ! i ! j)"
    by (auto simp: nth2_update[OF r(2) z k] t less_Suc_eq)
  from step rs a b show ?case by blast
qed

lemma init_matrices_props:
  "\<exists>S T. init_matrices P n m = (S, T)
     \<and> rect (n + 1) (m + 1) S \<and> rect (n + 1) (m + 1) T
     \<and> (\<forall>i j. i \<le> n \<longrightarrow> j \<le> m \<longrightarrow> S ! i ! j =
           (if i = 0 then gap_score P * of_nat j else if j = 0 then gap_score P * of_nat i else 0))
     \<and> (\<forall>i j. i \<le> n \<longrightarrow> j \<le> m \<longrightarrow> T ! i ! j =
           (if i = 0 then (if j = 0 then [] else ''L'') else if j = 0 then ''U'' else []))"
proof -
  let ?S0 = "replicate (n + 1) (replicate (m + 1) (0::rat))"
  let ?T0 = "replicate (n + 1) (replicate (m + 1) ([]::string))"
  have z: "?S0 ! i ! j = 0" "?T0 ! i ! j = []" if "i \<le> n" "j \<le> m" for i j
    using that by (simp_all del: replicate_Suc replicate.simps)
  have r0: "rect (n + 1) (m + 1) ?S0" "rect (n + 1) (m + 1) ?T0" by (rule rect_replicate)+
  from fold_init_col[OF r0 order_refl, of P] obtain S1 T1 where
    c: "fold (init_col P) [0 ..< n + 1] (?S0, ?T0) = (S1, T1)"
    and r1: "rect (n + 1) (m + 1) S1" "rect (n + 1) (m + 1) T1"
    and s1: "\<And>i j. S1 ! i ! j = (if j = 0 \<and> i < n + 1 then gap_score P * of_nat i else ?S0 ! i ! j)"
    and t1: "\<And>i j. T1 ! i ! j = (if j = 0 \<and> 0 < i \<and> i < n + 1 then ''U'' else ?T0 ! i ! j)"
    by blast
  from fold_init_row[OF r1 order_refl, of P] obtain S2 T2 where
    d: "fold (init_row P) [0 ..< m + 1] (S1, T1) = (S2, T2)"
    and r2: "rect (n + 1) (m + 1) S2" "rect (n + 1) (m + 1) T2"
    and s2: "\<And>i j. S2 ! i ! j = (if i = 0 \<and> j < m + 1 then gap_score P * of_nat j else S1 ! i ! j)"
    and t2: "\<And>i j. T2 ! i ! j = (if i = 0 \<and> 0 < j \<and> j < m + 1 then ''L'' else T1 ! i ! j)"
    by blast
  have i: "init_matrices P n m = (S2, T2)"
    unfolding init_matrices_def c d ..
  have a: "\<forall>i j. i \<le> n \<longrightarrow> j \<le> m \<longrightarrow> S2 ! i ! j =
           (if i = 0 then gap_score P * of_nat j else if j = 0 then gap_score P * of_nat i else 0)"
    unfolding s2 s1 using z(1) by simp
  have b: "\<forall>i j. i \<le> n \<longrightarrow> j \<le> m \<longrightarrow> T2 ! i ! j =
           (if i = 0 then (if j = 0 then [] else ''L'') else if j = 0 then ''U'' else [])"
    unfolding t2 t1 using z(2) by simp
  from i r2 a b show ?thesis by blast
qed

lemma cell_spec_cong:
  assumes "S' ! i ! j = S ! i ! j" and "S' ! (i - 1) ! (j - 1) = S ! (i - 1) ! (j - 1)"
    and "S' ! (i - 1) ! j = S ! (i - 1) ! j" and "S' ! i ! (j - 1) = S ! i ! (j - 1)"
    and "T' ! i ! j = T ! i ! j"
  shows "cell_spec P h s1 s2 S' T' i j = cell_spec P h s1 s2 S T i j"
  unfolding cell_spec_def assms ..

lemma fill_cell_props:
  assumes r: "rect (n + 1) (m + 1) S" "rect (n + 1) (m + 1) T"
    and i: "1 \<le> i" "i \<le> n" and j: "1 \<le> j" "j \<le> m"
    and e: "T ! i ! j = []"
    and f: "fill_cell P h s1 s2 i j (S, T) = Inr (S', T')"
  shows "rect (n + 1) (m + 1) S'" and "rect (n + 1) (m + 1) T'"
    and "\<And>i' j'. i' \<noteq> i \<or> j' \<noteq> j \<Longrightarrow> S' ! i' ! j' = S ! i' ! j' \<and> T' ! i' ! j' = T ! i' ! j'"
    and "cell_spec P h s1 s2 S' T' i j"
proof -
  from f obtain mtch where
    mc: "match_candidate P h (s1 ! (i - 1)) (s2 ! (j - 1)) (S ! (i - 1) ! (j - 1)) = Inr mtch"
    by (auto simp: fill_cell_def split: sum.splits)
  let ?del = "S ! (i - 1) ! j + gap_score P"
  let ?ins = "S ! i ! (j - 1) + gap_score P"
  let ?mx = "max (max mtch ?del) ?ins"
  let ?tr = "(if ?mx = mtch then ''D'' else [])
               @ (if ?mx = ?del then ''U'' else []) @ (if ?mx = ?ins then ''L'' else [])"
  have X: "(if c then (if b then (if a then t0 @ ''D'' else t0) @ ''U''
                         else (if a then t0 @ ''D'' else t0)) @ ''L''
            else (if b then (if a then t0 @ ''D'' else t0) @ ''U''
                  else (if a then t0 @ ''D'' else t0)))
       = t0 @ (if a then ''D'' else []) @ (if b then ''U'' else []) @ (if c then ''L'' else [])"
    for a b c and t0 :: string
    by simp
  have "fill_cell P h s1 s2 i j (S, T)
          = Inr (S[i := (S ! i)[j := ?mx]], T[i := (T ! i)[j := [] @ ?tr]])"
    unfolding fill_cell_def prod.case mc sum.case Let_def X e ..
  with f have S': "S' = S[i := (S ! i)[j := ?mx]]" and T': "T' = T[i := (T ! i)[j := ?tr]]"
    by simp_all
  have ii: "i < n + 1" and jj: "j < m + 1" using i j by simp_all
  show "rect (n + 1) (m + 1) S'" "rect (n + 1) (m + 1) T'"
    unfolding S' T' using r by (simp_all add: rect_update)
  show fr: "S' ! i' ! j' = S ! i' ! j' \<and> T' ! i' ! j' = T ! i' ! j'" if "i' \<noteq> i \<or> j' \<noteq> j" for i' j'
    unfolding S' T' nth2_update[OF r(1) ii jj] nth2_update[OF r(2) ii jj] using that by auto
  have a: "S' ! i ! j = ?mx" "T' ! i ! j = ?tr"
    unfolding S' T' nth2_update[OF r(1) ii jj] nth2_update[OF r(2) ii jj] by simp_all
  have "i - 1 \<noteq> i" "j - 1 \<noteq> j" using i j by simp_all
  then have b: "S' ! (i - 1) ! (j - 1) = S ! (i - 1) ! (j - 1)" "S' ! (i - 1) ! j = S ! (i - 1) ! j"
    "S' ! i ! (j - 1) = S ! i ! (j - 1)"
    using fr by blast+
  show "cell_spec P h s1 s2 S' T' i j"
    unfolding cell_spec_def b a(2)
    using mc by (intro exI[of _ mtch]) (simp add: a(1))
qed

lemma fill_row_props:
  assumes r: "rect (n + 1) (m + 1) S" "rect (n + 1) (m + 1) T"
    and i: "1 \<le> i" "i \<le> n"
    and e: "\<And>j. 1 \<le> j \<Longrightarrow> j \<le> m \<Longrightarrow> T ! i ! j = []"
  shows "k \<le> m + 1 \<Longrightarrow> foldE (fill_cell P h s1 s2 i) [1 ..< k] (S, T) = Inr (S', T') \<Longrightarrow>
     rect (n + 1) (m + 1) S' \<and> rect (n + 1) (m + 1) T'
     \<and> (\<forall>i' j'. i' \<noteq> i \<or> j' = 0 \<or> k \<le> j' \<longrightarrow> S' ! i' ! j' = S ! i' ! j' \<and> T' ! i' ! j' = T ! i' ! j')
     \<and> (\<forall>j. 1 \<le> j \<and> j < k \<longrightarrow> cell_spec P h s1 s2 S' T' i j)"
proof (induction k arbitrary: S' T')
  case 0
  with r show ?case by simp
next
  case (Suc k)
  show ?case
  proof (cases "k = 0")
    case True
    with Suc.prems r show ?thesis by simp
  next
    case False
    then have k1: "1 \<le> k" by simp
    from Suc.prems(1) have km: "k \<le> m" by simp
    from Suc.prems(2)[unfolded foldE_upt_Suc[OF k1]] obtain S1 T1 where
      f1: "foldE (fill_cell P h s1 s2 i) [1 ..< k] (S, T) = Inr (S1, T1)"
      and f2: "fill_cell P h s1 s2 i k (S1, T1) = Inr (S', T')"
      by (cases "foldE (fill_cell P h s1 s2 i) [1 ..< k] (S, T)") auto
    from Suc.IH[OF _ f1] km have
      r1: "rect (n + 1) (m + 1) S1" "rect (n + 1) (m + 1) T1"
      and fr1: "\<And>i' j'. i' \<noteq> i \<or> j' = 0 \<or> k \<le> j' \<Longrightarrow> S1 ! i' ! j' = S ! i' ! j' \<and> T1 ! i' ! j' = T ! i' ! j'"
      and sp1: "\<And>j. 1 \<le> j \<Longrightarrow> j < k \<Longrightarrow> cell_spec P h s1 s2 S1 T1 i j"
      by auto
    have e1: "T1 ! i ! k = []" using fr1[of i k] e[OF k1 km] by simp
    note fc = fill_cell_props[OF r1 i k1 km e1 f2]
    have fr: "S' ! i' ! j' = S ! i' ! j' \<and> T' ! i' ! j' = T ! i' ! j'"
      if "i' \<noteq> i \<or> j' = 0 \<or> Suc k \<le> j'" for i' j'
    proof -
      from that k1 have "i' \<noteq> i \<or> j' \<noteq> k" by auto
      from fc(3)[OF this] fr1[of i' j'] that show ?thesis by auto
    qed
    have sp: "cell_spec P h s1 s2 S' T' i j" if "1 \<le> j" "j < Suc k" for j
    proof (cases "j = k")
      case True
      with fc(4) show ?thesis by simp
    next
      case False
      with that have jk: "j < k" by simp
      from jk have ne: "j \<noteq> k" "j - 1 \<noteq> k" by simp_all
      have c: "S' ! i ! j = S1 ! i ! j" "S' ! (i - 1) ! (j - 1) = S1 ! (i - 1) ! (j - 1)"
        "S' ! (i - 1) ! j = S1 ! (i - 1) ! j" "S' ! i ! (j - 1) = S1 ! i ! (j - 1)"
        "T' ! i ! j = T1 ! i ! j"
        using ne fc(3) by blast+
      have "cell_spec P h s1 s2 S' T' i j = cell_spec P h s1 s2 S1 T1 i j"
        by (rule cell_spec_cong[OF c])
      with sp1[OF that(1) jk] show ?thesis by simp
    qed
    from fc(1,2) fr sp show ?thesis by blast
  qed
qed

lemma fill_rows_props:
  assumes r: "rect (n + 1) (m + 1) S" "rect (n + 1) (m + 1) T"
    and e: "\<And>i j. 1 \<le> i \<Longrightarrow> i \<le> n \<Longrightarrow> 1 \<le> j \<Longrightarrow> j \<le> m \<Longrightarrow> T ! i ! j = []"
  shows "k \<le> n + 1 \<Longrightarrow>
     foldE (\<lambda>i. foldE (fill_cell P h s1 s2 i) [1 ..< m + 1]) [1 ..< k] (S, T) = Inr (S', T') \<Longrightarrow>
     rect (n + 1) (m + 1) S' \<and> rect (n + 1) (m + 1) T'
     \<and> (\<forall>i' j'. i' = 0 \<or> j' = 0 \<or> k \<le> i' \<longrightarrow> S' ! i' ! j' = S ! i' ! j' \<and> T' ! i' ! j' = T ! i' ! j')
     \<and> (\<forall>i j. 1 \<le> i \<and> i < k \<and> 1 \<le> j \<and> j \<le> m \<longrightarrow> cell_spec P h s1 s2 S' T' i j)"
proof (induction k arbitrary: S' T')
  case 0
  with r show ?case by simp
next
  case (Suc k)
  show ?case
  proof (cases "k = 0")
    case True
    with Suc.prems r show ?thesis by simp
  next
    case False
    then have k1: "1 \<le> k" by simp
    from Suc.prems(1) have kn: "k \<le> n" by simp
    from Suc.prems(2)[unfolded foldE_upt_Suc[OF k1]] obtain S1 T1 where
      f1: "foldE (\<lambda>i. foldE (fill_cell P h s1 s2 i) [1 ..< m + 1]) [1 ..< k] (S, T) = Inr (S1, T1)"
      and f2: "foldE (fill_cell P h s1 s2 k) [1 ..< m + 1] (S1, T1) = Inr (S', T')"
      by (cases "foldE (\<lambda>i. foldE (fill_cell P h s1 s2 i) [1 ..< m + 1]) [1 ..< k] (S, T)") auto
    from Suc.IH[OF _ f1] kn have
      r1: "rect (n + 1) (m + 1) S1" "rect (n + 1) (m + 1) T1"
      and fr1: "\<And>i' j'. i' = 0 \<or> j' = 0 \<or> k \<le> i' \<Longrightarrow> S1 ! i' ! j' = S ! i' ! j' \<and> T1 ! i' ! j' = T ! i' ! j'"
      and sp1: "\<And>i j. 1 \<le> i \<Longrightarrow> i < k \<Longrightarrow> 1 \<le> j \<Longrightarrow> j \<le> m \<Longrightarrow> cell_spec P h s1 s2 S1 T1 i j"
      by auto
    have e1: "T1 ! k ! j = []" if "1 \<le> j" "j \<le> m" for j
      using fr1[of k j] e[OF k1 kn that] by simp
    from fill_row_props[OF r1 k1 kn e1 order_refl f2] have
      r2: "rect (n + 1) (m + 1) S'" "rect (n + 1) (m + 1) T'"
      and fr2: "\<And>i' j'. i' \<noteq> k \<or> j' = 0 \<or> m + 1 \<le> j' \<Longrightarrow> S' ! i' ! j' = S1 ! i' ! j' \<and> T' ! i' ! j' = T1 ! i' ! j'"
      and sp2: "\<And>j. 1 \<le> j \<Longrightarrow> j < m + 1 \<Longrightarrow> cell_spec P h s1 s2 S' T' k j"
      by auto
    have fr: "S' ! i' ! j' = S ! i' ! j' \<and> T' ! i' ! j' = T ! i' ! j'"
      if "i' = 0 \<or> j' = 0 \<or> Suc k \<le> i'" for i' j'
    proof -
      from that k1 have "i' \<noteq> k \<or> j' = 0" by auto
      then have "S' ! i' ! j' = S1 ! i' ! j' \<and> T' ! i' ! j' = T1 ! i' ! j'" by (intro fr2) auto
      moreover from that have "S1 ! i' ! j' = S ! i' ! j' \<and> T1 ! i' ! j' = T ! i' ! j'"
        by (intro fr1) auto
      ultimately show ?thesis by simp
    qed
    have sp: "cell_spec P h s1 s2 S' T' i j" if "1 \<le> i" "i < Suc k" "1 \<le> j" "j \<le> m" for i j
    proof (cases "i = k")
      case True
      with sp2[of j] that show ?thesis by simp
    next
      case False
      with that have ik: "i < k" by simp
      from ik have ne: "i \<noteq> k" "i - 1 \<noteq> k" by simp_all
      have c: "S' ! i ! j = S1 ! i ! j" "S' ! (i - 1) ! (j - 1) = S1 ! (i - 1) ! (j - 1)"
        "S' ! (i - 1) ! j = S1 ! (i - 1) ! j" "S' ! i ! (j - 1) = S1 ! i ! (j - 1)"
        "T' ! i ! j = T1 ! i ! j"
        using ne fr2 by blast+
      have "cell_spec P h s1 s2 S' T' i j = cell_spec P h s1 s2 S1 T1 i j"
        by (rule cell_spec_cong[OF c])
      with sp1[OF that(1) ik that(3,4)] show ?thesis by simp
    qed
    from r2 fr sp show ?thesis by blast
  qed
qed

text \<open>The matrices that the scorer returns.\<close>

lemma fill_matrices_props:
  assumes "fill_matrices P h s1 s2 = Inr (S, T)"
  shows "rect (length s1 + 1) (length s2 + 1) S" and "rect (length s1 + 1) (length s2 + 1) T"
    and "\<And>i. i \<le> length s1 \<Longrightarrow> S ! i ! 0 = gap_score P * of_nat i"
    and "\<And>j. j \<le> length s2 \<Longrightarrow> S ! 0 ! j = gap_score P * of_nat j"
    and "T ! 0 ! 0 = []"
    and "\<And>i. 1 \<le> i \<Longrightarrow> i \<le> length s1 \<Longrightarrow> T ! i ! 0 = ''U''"
    and "\<And>j. 1 \<le> j \<Longrightarrow> j \<le> length s2 \<Longrightarrow> T ! 0 ! j = ''L''"
    and "\<And>i j. 1 \<le> i \<Longrightarrow> i \<le> length s1 \<Longrightarrow> 1 \<le> j \<Longrightarrow> j \<le> length s2 \<Longrightarrow> cell_spec P h s1 s2 S T i j"
proof -
  let ?n = "length s1" and ?m = "length s2"
  obtain S0 T0 where i0: "init_matrices P ?n ?m = (S0, T0)"
    and r0: "rect (?n + 1) (?m + 1) S0" "rect (?n + 1) (?m + 1) T0"
    and s0: "\<And>i j. i \<le> ?n \<Longrightarrow> j \<le> ?m \<Longrightarrow> S0 ! i ! j =
           (if i = 0 then gap_score P * of_nat j else if j = 0 then gap_score P * of_nat i else 0)"
    and t0: "\<And>i j. i \<le> ?n \<Longrightarrow> j \<le> ?m \<Longrightarrow> T0 ! i ! j =
           (if i = 0 then (if j = 0 then [] else ''L'') else if j = 0 then ''U'' else [])"
    using init_matrices_props[of P ?n ?m] by blast
  have e: "T0 ! i ! j = []" if "1 \<le> i" "i \<le> ?n" "1 \<le> j" "j \<le> ?m" for i j
    using t0[OF that(2,4)] that by simp
  from assms have f: "foldE (\<lambda>i. foldE (fill_cell P h s1 s2 i) [1 ..< ?m + 1]) [1 ..< ?n + 1] (S0, T0) = Inr (S, T)"
    unfolding fill_matrices_def Let_def i0 .
  from fill_rows_props[OF r0 e order_refl f] have
    r: "rect (?n + 1) (?m + 1) S" "rect (?n + 1) (?m + 1) T"
    and fr: "\<And>i' j'. i' = 0 \<or> j' = 0 \<or> ?n + 1 \<le> i' \<Longrightarrow> S ! i' ! j' = S0 ! i' ! j' \<and> T ! i' ! j' = T0 ! i' ! j'"
    and sp: "\<And>i j. 1 \<le> i \<Longrightarrow> i < ?n + 1 \<Longrightarrow> 1 \<le> j \<Longrightarrow> j \<le> ?m \<Longrightarrow> cell_spec P h s1 s2 S T i j"
    by auto
  show "rect (?n + 1) (?m + 1) S" "rect (?n + 1) (?m + 1) T" by (rule r)+
  show "S ! i ! 0 = gap_score P * of_nat i" if "i \<le> ?n" for i
    using fr[of i 0] s0[OF that, of 0] by simp
  show "S ! 0 ! j = gap_score P * of_nat j" if "j \<le> ?m" for j
    using fr[of 0 j] s0[OF _ that, of 0] by simp
  show "T ! 0 ! 0 = []" using fr[of 0 0] t0[of 0 0] by simp
  show "T ! i ! 0 = ''U''" if "1 \<le> i" "i \<le> ?n" for i
    using fr[of i 0] t0[OF that(2), of 0] that(1) by simp
  show "T ! 0 ! j = ''L''" if "1 \<le> j" "j \<le> ?m" for j
    using fr[of 0 j] t0[OF _ that(2), of 0] that(1) by simp
  show "cell_spec P h s1 s2 S T i j" if "1 \<le> i" "i \<le> ?n" "1 \<le> j" "j \<le> ?m" for i j
    using sp[of i j] that by simp
qed

lemma tags_membership:
  "CHR ''D'' \<in> set ((if a then ''D'' else []) @ (if b then ''U'' else []) @ (if c then ''L'' else [])) = a"
  "CHR ''U'' \<in> set ((if a then ''D'' else []) @ (if b then ''U'' else []) @ (if c then ''L'' else [])) = b"
  "CHR ''L'' \<in> set ((if a then ''D'' else []) @ (if b then ''U'' else []) @ (if c then ''L'' else [])) = c"
  by auto

lemma needleman_wunsch_Inr:
  assumes "needleman_wunsch_alignment_words_substring P \<sigma> text1 text2 = Inr (\<sigma>', S, T)"
  shows "\<sigma>' = clear_alignment (clear_alignment \<sigma> text1) text2"
    and "fill_matrices P (heap \<sigma>') (tokens text1) (tokens text2) = Inr (S, T)"
  using assms
  by (auto simp: needleman_wunsch_alignment_words_substring_def Let_def split: sum.splits)



section \<open>Aligning a sequence with itself\<close>

lemma clear_fold_fields:
  "tok_text (fold (\<lambda>a h. h(a := clear_alignment_token (h a))) as h b) = tok_text (h b)"
  "cls (fold (\<lambda>a h. h(a := clear_alignment_token (h a))) as h b) = cls (h b)"
  "original (fold (\<lambda>a h. h(a := clear_alignment_token (h a))) as h b) = original (h b)"
  "index (fold (\<lambda>a h. h(a := clear_alignment_token (h a))) as h b) = index (h b)"
  "start (fold (\<lambda>a h. h(a := clear_alignment_token (h a))) as h b) = start (h b)"
  by (induction as arbitrary: h; simp add: clear_alignment_token_def)+

lemma clear_alignment_fields [simp]:
  "tok_text (heap (clear_alignment \<sigma> t) a) = tok_text (heap \<sigma> a)"
  "cls (heap (clear_alignment \<sigma> t) a) = cls (heap \<sigma> a)"
  "original (heap (clear_alignment \<sigma> t) a) = original (heap \<sigma> a)"
  "index (heap (clear_alignment \<sigma> t) a) = index (heap \<sigma> a)"
  "start (heap (clear_alignment \<sigma> t) a) = start (heap \<sigma> a)"
  "next_addr (clear_alignment \<sigma> t) = next_addr \<sigma>"
  by (simp_all add: clear_alignment_def clear_fold_fields)

text \<open>Without an original the diagonal candidate never fails, and with the default
  constants a mismatch adds less than a match does.\<close>

lemma match_candidate_no_original:
  assumes "original (h a1) = None"
  shows "\<exists>v. match_candidate default_scoring h a1 a2 prev = Inr v \<and> v \<le> prev + 1
     \<and> (tok_text (h a1) = tok_text (h a2) \<longrightarrow> v = prev + 1)"
proof (cases "tok_text (h a1) = tok_text (h a2)")
  case True
  then show ?thesis by (simp add: match_candidate_def default_scoring_def)
next
  case False
  let ?k = "length (longest_common_substring (tok_text (h a1)) (tok_text (h a2)))"
  let ?m = "max (length (tok_text (h a1))) (length (tok_text (h a2)))"
  from longest_common_substring_less[OF False] have km: "?k < ?m" .
  then have m0: "0 < ?m" by simp
  define adj where "adj = - 1 + (of_nat ?k / of_nat ?m) * (3 / 2 :: rat)
       + (if isinstance (cls (h a1)) (cls (h a2)) \<and> ?m > 1 then 1 / 2 else 0)"
  have adj: "mismatch_score_adjusted default_scoring (h a1) (h a1) (h a2) = Inr adj"
    using m0 by (simp add: mismatch_score_adjusted_Inr adj_def default_scoring_def)
  have "(of_nat ?k :: rat) / of_nat ?m < 1" using km m0 by simp
  then have "(of_nat ?k / of_nat ?m) * (3 / 2 :: rat) < 3 / 2" by simp
  then have "adj < 1" by (simp add: adj_def)
  moreover have "match_candidate default_scoring h a1 a2 prev = Inr (prev + adj)"
    using False assms adj by (simp add: match_candidate_def original_match_def)
  ultimately show ?thesis using False by simp
qed

lemma foldE_total:
  assumes "\<And>x s. x \<in> set xs \<Longrightarrow> \<exists>s'. f x s = Inr s'"
  shows "\<exists>s'. foldE f xs s = Inr s'"
  using assms
proof (induction xs arbitrary: s)
  case Nil
  then show ?case by simp
next
  case (Cons x xs)
  from Cons.prems[of x s] obtain s1 where "f x s = Inr s1" by auto
  moreover from Cons.IH[of s1] Cons.prems obtain s2 where "foldE f xs s1 = Inr s2" by auto
  ultimately show ?case by simp
qed

lemma fill_matrices_total:
  assumes "\<forall>a \<in> set s1. original (h a) = None"
  shows "\<exists>S T. fill_matrices default_scoring h s1 s2 = Inr (S, T)"
proof -
  have cell: "\<exists>M'. fill_cell default_scoring h s1 s2 i j M = Inr M'"
    if "i \<in> set [1 ..< length s1 + 1]" for i j M
  proof -
    from that have "i - 1 < length s1" by auto
    then have "s1 ! (i - 1) \<in> set s1" by (rule nth_mem)
    with assms have "original (h (s1 ! (i - 1))) = None" by blast
    from match_candidate_no_original[of h "s1 ! (i - 1)", OF this] obtain v where
      "match_candidate default_scoring h (s1 ! (i - 1)) (s2 ! (j - 1)) (fst M ! (i - 1) ! (j - 1)) = Inr v"
      by blast
    then show ?thesis by (cases M) (simp add: fill_cell_def Let_def)
  qed
  have "\<exists>M'. foldE (\<lambda>i. foldE (fill_cell default_scoring h s1 s2 i) [1 ..< length s2 + 1])
           [1 ..< length s1 + 1] (init_matrices default_scoring (length s1) (length s2)) = Inr M'"
    by (intro foldE_total cell)
  then show ?thesis by (auto simp: fill_matrices_def Let_def)
qed

lemma score_bound_steps:
  "score_bound i j + 1 = score_bound (Suc i) (Suc j)"
  "score_bound i (Suc j) - 1 \<le> score_bound (Suc i) (Suc j)"
  "score_bound (Suc i) j - 1 \<le> score_bound (Suc i) (Suc j)"
  by (simp_all add: score_bound_def min_def max_def)

lemma self_alignment_bound:
  assumes f: "fill_matrices default_scoring h s1 s2 = Inr (S, T)"
    and o: "\<forall>a \<in> set s1. original (h a) = None"
  shows "i \<le> length s1 \<Longrightarrow> j \<le> length s2 \<Longrightarrow> S ! i ! j \<le> score_bound i j"
proof (induction i arbitrary: j)
  case 0
  with fill_matrices_props(4)[OF f, of j] show ?case
    by (simp add: score_bound_def default_scoring_def)
next
  case (Suc i)
  note oIH = Suc.IH and op1 = Suc.prems(1)
  from Suc.prems(2) show ?case
  proof (induction j)
    case 0
    with fill_matrices_props(3)[OF f, of "Suc i"] op1 show ?case
      by (simp add: score_bound_def default_scoring_def)
  next
    case (Suc j)
    from op1 Suc.prems have r: "1 \<le> Suc i" "Suc i \<le> length s1" "1 \<le> Suc j" "Suc j \<le> length s2"
      by simp_all
    from fill_matrices_props(8)[OF f r] obtain mtch where
      m: "match_candidate default_scoring h (s1 ! i) (s2 ! j) (S ! i ! j) = Inr mtch"
      and v: "S ! Suc i ! Suc j = max (max mtch (S ! i ! Suc j + gap_score default_scoring))
                 (S ! Suc i ! j + gap_score default_scoring)"
      by (auto simp: cell_spec_def)
    from r(2) have "s1 ! i \<in> set s1" by simp
    with o have "original (h (s1 ! i)) = None" by blast
    from match_candidate_no_original[of h "s1 ! i", OF this, of "s2 ! j" "S ! i ! j"] m
    have "mtch \<le> S ! i ! j + 1" by simp
    moreover have "S ! i ! j \<le> score_bound i j" using r by (intro oIH) simp_all
    ultimately have a: "mtch \<le> score_bound (Suc i) (Suc j)"
      using score_bound_steps(1)[of i j] by simp
    have "S ! i ! Suc j \<le> score_bound i (Suc j)" using r by (intro oIH) simp_all
    then have b: "S ! i ! Suc j + gap_score default_scoring \<le> score_bound (Suc i) (Suc j)"
      using score_bound_steps(2)[of i j] by (simp add: default_scoring_def)
    have "S ! Suc i ! j \<le> score_bound (Suc i) j" using r by (intro Suc.IH) simp
    then have c: "S ! Suc i ! j + gap_score default_scoring \<le> score_bound (Suc i) (Suc j)"
      using score_bound_steps(3)[of i j] by (simp add: default_scoring_def)
    from a b c show ?case unfolding v by simp
  qed
qed

lemma self_alignment_diagonal:
  assumes f: "fill_matrices default_scoring h s s = Inr (S, T)"
    and o: "\<forall>a \<in> set s. original (h a) = None"
  shows "k \<le> length s \<Longrightarrow> S ! k ! k = of_nat k \<and> (0 < k \<longrightarrow> CHR ''D'' \<in> set (T ! k ! k))"
proof (induction k)
  case 0
  with fill_matrices_props(3)[OF f, of 0] show ?case by simp
next
  case (Suc k)
  then have r: "1 \<le> Suc k" "Suc k \<le> length s" and kk: "S ! k ! k = of_nat k" by simp_all
  from fill_matrices_props(8)[OF f r r] obtain mtch where
    m: "match_candidate default_scoring h (s ! k) (s ! k) (S ! k ! k) = Inr mtch"
    and v: "S ! Suc k ! Suc k = max (max mtch (S ! k ! Suc k + gap_score default_scoring))
                 (S ! Suc k ! k + gap_score default_scoring)"
    and t: "T ! Suc k ! Suc k = (if S ! Suc k ! Suc k = mtch then ''D'' else [])
                     @ (if S ! Suc k ! Suc k = S ! k ! Suc k + gap_score default_scoring then ''U'' else [])
                     @ (if S ! Suc k ! Suc k = S ! Suc k ! k + gap_score default_scoring then ''L'' else [])"
    by (auto simp: cell_spec_def)
  from r(2) have "s ! k \<in> set s" by simp
  with o have "original (h (s ! k)) = None" by blast
  from match_candidate_no_original[of h "s ! k", OF this, of "s ! k" "S ! k ! k"] m
  have mt: "mtch = of_nat k + 1" by (simp add: kk)
  have "S ! k ! Suc k \<le> score_bound k (Suc k)"
    using r by (intro self_alignment_bound[OF f o]) simp_all
  then have b: "S ! k ! Suc k + gap_score default_scoring \<le> mtch"
    by (simp add: score_bound_def default_scoring_def mt)
  have "S ! Suc k ! k \<le> score_bound (Suc k) k"
    using r by (intro self_alignment_bound[OF f o]) simp_all
  then have c: "S ! Suc k ! k + gap_score default_scoring \<le> mtch"
    by (simp add: score_bound_def default_scoring_def mt)
  from b c have "S ! Suc k ! Suc k = mtch" unfolding v by simp
  then show ?case by (simp add: t mt)
qed

lemma py_nth2_rect: "rect r c M \<Longrightarrow> i < r \<Longrightarrow> j < c \<Longrightarrow> py_nth2 M i j = Inr (M ! i ! j)"
  by (auto simp: py_nth2_def py_nth_def rect_def)

lemma diagonal_path:
  assumes r: "rect (n + 1) (n + 1) T" and e: "T ! 0 ! 0 = []"
    and d: "\<And>k. 0 < k \<Longrightarrow> k \<le> n \<Longrightarrow> CHR ''D'' \<in> set (T ! k ! k)"
  shows "k \<le> n \<Longrightarrow> traceback_path T k k = replicate k Diagonal"
proof (induction k)
  case 0
  show ?case by (subst traceback_path.simps) (simp add: py_nth2_rect[OF r] e)
next
  case (Suc k)
  then have p: "py_nth2 T (Suc k) (Suc k) = Inr (T ! Suc k ! Suc k)"
    by (intro py_nth2_rect[OF r]) simp_all
  from d[of "Suc k"] Suc.prems have "CHR ''D'' \<in> set (T ! Suc k ! Suc k)" by simp
  then have "traceback_path T (Suc k) (Suc k) = Diagonal # traceback_path T k k"
    by (subst traceback_path.simps) (simp add: p)
  with Suc show ?case by simp
qed

lemma diagonal_walk:
  assumes r: "rect (n + 1) (n + 1) T" and e: "T ! 0 ! 0 = []"
    and d: "\<And>k. 0 < k \<Longrightarrow> k \<le> n \<Longrightarrow> CHR ''D'' \<in> set (T ! k ! k)"
    and n: "length s = n" "s \<noteq> []"
  shows "k \<le> n \<Longrightarrow> \<exists>\<sigma>' B1 B2. walk T s s k k (\<sigma>, A1, A2) = Inr (\<sigma>', B1, B2)
           \<and> tokens B1 = take k s @ tokens A1 \<and> tokens B2 = take k s @ tokens A2"
proof (induction k arbitrary: \<sigma> A1 A2)
  case 0
  have "py_nth s (if (0::nat) > 0 then 0 - 1 else 0) = Inr (s ! 0)"
    using n(2) by (simp add: py_nth_def)
  from walk_unfold[OF py_nth2_rect[OF r, of 0 0] this this, where st = "(\<sigma>, A1, A2)"] show ?case
    by (simp add: e)
next
  case (Suc k)
  have p: "py_nth2 T (Suc k) (Suc k) = Inr (T ! Suc k ! Suc k)"
    using Suc.prems by (intro py_nth2_rect[OF r]) simp_all
  have t: "py_nth s (if Suc k > 0 then Suc k - 1 else 0) = Inr (s ! k)"
    using Suc.prems n(1) by (simp add: py_nth_def)
  from d[of "Suc k"] Suc.prems have dd: "CHR ''D'' \<in> set (T ! Suc k ! Suc k)" by simp
  obtain \<sigma>1 C1 C2 where m: "diag_move (\<sigma>, A1, A2) (s ! k) (s ! k) = (\<sigma>1, C1, C2)"
    by (metis prod_cases3)
  from tokens_diag_move[OF m] have c: "tokens C1 = s ! k # tokens A1" "tokens C2 = s ! k # tokens A2"
    by simp_all
  have w: "walk T s s (Suc k) (Suc k) (\<sigma>, A1, A2) = walk T s s k k (\<sigma>1, C1, C2)"
    using walk_unfold[OF p t t, where st = "(\<sigma>, A1, A2)"] dd by (simp add: m)
  from Suc.IH[of \<sigma>1 C1 C2] Suc.prems obtain \<sigma>' B1 B2 where
    "walk T s s k k (\<sigma>1, C1, C2) = Inr (\<sigma>', B1, B2)"
    "tokens B1 = take k s @ tokens C1" "tokens B2 = take k s @ tokens C2"
    by auto
  moreover have "take (Suc k) s = take k s @ [s ! k]"
    using Suc.prems n(1) by (simp add: take_Suc_conv_app_nth)
  ultimately show ?case by (simp add: w c)
qed

text \<open>
  Claim C3 as stated fails for sequences whose tokens carry originals: a mismatch against
  the text of the original earns up to \<open>2\<close>, more than a match.  For the five tokens of
  \<open>chain_seq\<close> the final score of the self-alignment is \<open>6\<close>, not \<open>5\<close>, and the walk
  starts with an up move and ends with a left move.
\<close>

theorem self_alignment_with_originals:
  "map_sum id snd (needleman_wunsch_alignment_words_substring default_scoring chain_store chain_seq chain_seq)
     = Inr (chain_S, chain_T)
   \<and> chain_S ! 5 ! 5 = 6
   \<and> match_score default_scoring * of_nat (length (tokens chain_seq)) = 5
   \<and> traceback_path chain_T 5 5 = [Up, Diagonal, Diagonal, Diagonal, Diagonal, Left]"
  by code_simp

text \<open>
  Claim C3, as amended.  For every non-empty sequence none of whose tokens has an original,
  aligning the sequence with itself gives the final score \<open>match_score * len(seq)\<close>, a
  walk of diagonal moves only, and two aligned sequences that consist of the tokens of the
  sequence and nothing else: no gap placeholder is inserted.
\<close>

theorem self_alignment_all_diagonal:
  assumes "tokens seq \<noteq> []" and "\<forall>a \<in> set (tokens seq). original (heap \<sigma> a) = None"
  shows "\<exists>\<sigma>1 S T \<sigma>' a1 a2.
      needleman_wunsch_alignment_words_substring default_scoring \<sigma> seq seq = Inr (\<sigma>1, S, T)
    \<and> S ! length (tokens seq) ! length (tokens seq)
        = match_score default_scoring * of_nat (length (tokens seq))
    \<and> traceback_path T (length (tokens seq)) (length (tokens seq))
        = replicate (length (tokens seq)) Diagonal
    \<and> align_sentences \<sigma> seq seq = Inr (\<sigma>', a1, a2)
    \<and> tokens a1 = tokens seq \<and> tokens a2 = tokens seq"
proof -
  let ?s = "tokens seq" and ?n = "length (tokens seq)"
  define \<sigma>1 where "\<sigma>1 = clear_alignment (clear_alignment \<sigma> seq) seq"
  have o: "\<forall>a \<in> set ?s. original (heap \<sigma>1 a) = None"
    using assms(2) by (simp add: \<sigma>1_def)
  from fill_matrices_total[OF o] obtain S T where
    f: "fill_matrices default_scoring (heap \<sigma>1) ?s ?s = Inr (S, T)" by blast
  have nw: "needleman_wunsch_alignment_words_substring default_scoring \<sigma> seq seq = Inr (\<sigma>1, S, T)"
    unfolding needleman_wunsch_alignment_words_substring_def Let_def \<sigma>1_def[symmetric] f by simp
  note dg = self_alignment_diagonal[OF f o]
  have sc: "S ! ?n ! ?n = match_score default_scoring * of_nat ?n"
    using dg[of ?n] by (simp add: default_scoring_def)
  have r: "rect (?n + 1) (?n + 1) T" by (rule fill_matrices_props(2)[OF f])
  have e: "T ! 0 ! 0 = []" by (rule fill_matrices_props(5)[OF f])
  have d: "CHR ''D'' \<in> set (T ! k ! k)" if "0 < k" "k \<le> ?n" for k
    using dg[OF that(2)] that(1) by simp
  have p: "traceback_path T ?n ?n = replicate ?n Diagonal"
    by (rule diagonal_path[OF r e d order_refl])
  obtain \<sigma>a E1 where e1: "empty_Text \<sigma>1 = (\<sigma>a, E1)" by (cases "empty_Text \<sigma>1")
  obtain \<sigma>b E2 where e2: "empty_Text \<sigma>a = (\<sigma>b, E2)" by (cases "empty_Text \<sigma>a")
  have te: "tokens E1 = []" "tokens E2 = []"
    using e1 e2 by (auto simp: empty_Text_def recalculate_indices_eq)
  from diagonal_walk[OF r e d refl assms(1) order_refl, of \<sigma>b E1 E2] obtain \<sigma>c B1 B2 where
    w: "walk T ?s ?s ?n ?n (\<sigma>b, E1, E2) = Inr (\<sigma>c, B1, B2)"
    and b: "tokens B1 = ?s" "tokens B2 = ?s"
    by (auto simp: te)
  define \<sigma>d where "\<sigma>d = \<sigma>c\<lparr> heap := fold annotate_pair (zip (tokens B1) (tokens B2)) (heap \<sigma>c) \<rparr>"
  have g: "get_alignment_and_visualization_words \<sigma>1 seq seq T = Inr (\<sigma>d, B1, B2)"
    unfolding get_alignment_and_visualization_words_def Let_def e1 e2 prod.case w sum.case \<sigma>d_def ..
  obtain \<sigma>e a1 where q1: "recalculate_indices \<sigma>d B1 = (\<sigma>e, a1)" by (cases "recalculate_indices \<sigma>d B1")
  obtain \<sigma>f a2 where q2: "recalculate_indices \<sigma>e B2 = (\<sigma>f, a2)" by (cases "recalculate_indices \<sigma>e B2")
  have a: "align_sentences \<sigma> seq seq = Inr (\<sigma>f, a1, a2)"
    unfolding align_sentences_def nw sum.case prod.case g Let_def q1 q2 ..
  have t: "tokens a1 = ?s" "tokens a2 = ?s"
    using q1 q2 b by (auto simp: recalculate_indices_eq)
  from nw sc p a t show ?thesis by blast
qed

theorem self_alignment_all_diagonal_witness:
  "tokens ex_text2 = [1, 2]
   \<and> map (\<lambda>a. original (heap ex_store a)) (tokens ex_text2) = [None, None]
   \<and> (\<exists>\<sigma>1 S T \<sigma>' a1 a2.
      needleman_wunsch_alignment_words_substring default_scoring ex_store ex_text2 ex_text2 = Inr (\<sigma>1, S, T)
    \<and> S ! length (tokens ex_text2) ! length (tokens ex_text2)
        = match_score default_scoring * of_nat (length (tokens ex_text2))
    \<and> traceback_path T (length (tokens ex_text2)) (length (tokens ex_text2))
        = replicate (length (tokens ex_text2)) Diagonal
    \<and> align_sentences ex_store ex_text2 ex_text2 = Inr (\<sigma>', a1, a2)
    \<and> tokens a1 = tokens ex_text2 \<and> tokens a2 = tokens ex_text2)"
proof -
  have t: "tokens ex_text2 = [1, 2]" by (simp add: ex_text2_def)
  have m: "map (\<lambda>a. original (heap ex_store a)) (tokens ex_text2) = [None, None]"
    by (simp add: ex_text2_def ex_store_def new_token_def)
  have a: "tokens ex_text2 \<noteq> []" by (simp add: t)
  have b: "\<forall>a \<in> set (tokens ex_text2). original (heap ex_store a) = None"
    using m by (simp add: t)
  from self_alignment_all_diagonal[OF a b] t m show ?thesis by (intro conjI)
qed

section \<open>Shared token objects: what the alignment writes into its inputs\<close>

lemma flat_offsets_cong:
  assumes "\<And>a. cls (h' a) = cls (h a)" and "\<And>a. tok_text (h' a) = tok_text (h a)"
  shows "flat_offsets h' as st = flat_offsets h as st"
  by (induction as arbitrary: st) (simp_all add: assms split: list.splits)

lemma length_flat_offsets [simp]: "length (flat_offsets h as st) = length as"
  by (induction as arbitrary: st) simp_all

lemma recalc_loop_Cons:
  "recalc_loop h (a # rest) i st =
     recalc_loop (h(a := (h a)\<lparr> index := Some i, start := Some st \<rparr>)) rest (Suc i)
       (st + length (tok_text (h a))
        + (case rest of [] \<Rightarrow> 0
           | b # _ \<Rightarrow> if cls (h b) \<in> {Punctuation, Whitespace, Spacer} then 0 else 1))"
proof -
  have "recalc_loop h (a # rest) i st =
     (let h1 = h(a := (h a)\<lparr> index := Some i, start := Some st \<rparr>);
          no_space_needed =
            (case rest of [] \<Rightarrow> False
             | b # _ \<Rightarrow> isinstance (cls (h1 b)) Punctuation \<or> isinstance (cls (h1 b)) Whitespace
                        \<or> isinstance (cls (h1 b)) Spacer);
          offset = (if rest \<noteq> [] \<and> \<not> no_space_needed then 1 else 0)
      in recalc_loop h1 rest (Suc i) (st + tok_len (h1 a) + offset))"
    by (rule recalc_loop.simps(2))
  also have "\<dots> = recalc_loop (h(a := (h a)\<lparr> index := Some i, start := Some st \<rparr>)) rest (Suc i)
       (st + length (tok_text (h a))
        + (case rest of [] \<Rightarrow> 0
           | b # _ \<Rightarrow> if cls (h b) \<in> {Punctuation, Whitespace, Spacer} then 0 else 1))"
    by (cases rest) (simp_all add: Let_def tok_len_def isinstance_def)
  finally show ?thesis .
qed

lemma recalc_loop_index:
  "distinct as \<Longrightarrow> k < length as \<Longrightarrow> index (recalc_loop h as i st (as ! k)) = Some (i + k)"
proof (induction as arbitrary: h i st k)
  case Nil
  then show ?case by simp
next
  case (Cons a as)
  show ?case
  proof (cases k)
    case 0
    from Cons.prems have "a \<notin> set as" by simp
    then show ?thesis unfolding 0 recalc_loop_Cons by simp
  next
    case (Suc k')
    from Cons.prems have "distinct as" "k' < length as" by (simp_all add: Suc)
    from Cons.IH[OF this] show ?thesis unfolding Suc recalc_loop_Cons by simp
  qed
qed

lemma recalc_loop_start:
  "distinct as \<Longrightarrow> k < length as \<Longrightarrow>
     start (recalc_loop h as i st (as ! k)) = Some (flat_offsets h as st ! k)"
proof (induction as arbitrary: h i st k)
  case Nil
  then show ?case by simp
next
  case (Cons a as)
  let ?h1 = "h(a := (h a)\<lparr> index := Some i, start := Some st \<rparr>)"
  have c: "flat_offsets ?h1 as st' = flat_offsets h as st'" for st'
    by (rule flat_offsets_cong) simp_all
  show ?case
  proof (cases k)
    case 0
    from Cons.prems have "a \<notin> set as" by simp
    then show ?thesis unfolding 0 recalc_loop_Cons by simp
  next
    case (Suc k')
    from Cons.prems have d: "distinct as" "k' < length as" by (simp_all add: Suc)
    have ih: "start (recalc_loop ?h1 as i' st' (as ! k')) = Some (flat_offsets h as st' ! k')" for i' st'
      using Cons.IH[OF d, of ?h1 i' st'] by (simp only: c)
    show ?thesis unfolding Suc recalc_loop_Cons nth_Cons_Suc flat_offsets.simps by (rule ih)
  qed
qed

lemma annotate_pair_fields [simp]:
  "cls (annotate_pair p h a) = cls (h a)"
  "tok_text (annotate_pair p h a) = tok_text (h a)"
  "index (annotate_pair p h a) = index (h a)"
  "start (annotate_pair p h a) = start (h a)"
  "original (annotate_pair p h a) = original (h a)"
  by (cases p; simp add: annotate_pair_def Let_def set_color_def)+

lemma fold_annotate_fields [simp]:
  "cls (fold annotate_pair ps h a) = cls (h a)"
  "tok_text (fold annotate_pair ps h a) = tok_text (h a)"
  "index (fold annotate_pair ps h a) = index (h a)"
  "start (fold annotate_pair ps h a) = start (h a)"
  "original (fold annotate_pair ps h a) = original (h a)"
  by (induction ps arbitrary: h; simp)+

lemma annotate_pair_other: "a \<noteq> fst p \<Longrightarrow> a \<noteq> snd p \<Longrightarrow> annotate_pair p h a = h a"
  by (cases p) (simp add: annotate_pair_def Let_def)

lemma fold_annotate_other:
  "a \<notin> fst ` set ps \<Longrightarrow> a \<notin> snd ` set ps \<Longrightarrow> fold annotate_pair ps h a = h a"
  by (induction ps arbitrary: h) (simp_all add: annotate_pair_other)

text \<open>What the post-pass does to the two tokens of a pair of different objects.\<close>

lemma annotate_pair_at:
  assumes "w1 \<noteq> w2"
  shows "annotate_pair (w1, w2) h w1 =
           (if tok_text (h w1) \<noteq> tok_text (h w2)
            then (h w1)\<lparr> alignment_spaces := int (max (tok_len (h w1)) (tok_len (h w2))) - int (tok_len (h w1)),
                          aligned := True, color := Some (COLOR_MAPPING (pair_key (h w1) (h w2))) \<rparr>
            else h w1)"
    and "annotate_pair (w1, w2) h w2 =
           (if tok_text (h w1) \<noteq> tok_text (h w2)
            then (h w2)\<lparr> alignment_spaces := int (max (tok_len (h w1)) (tok_len (h w2))) - int (tok_len (h w2)),
                          aligned := True, color := Some (COLOR_MAPPING (pair_key (h w1) (h w2))) \<rparr>
            else h w2)"
  using assms
  by (simp_all add: annotate_pair_def Let_def set_color_def pair_key_def isinstance_def tok_len_def)

lemma fold_annotate_at:
  assumes "distinct (map fst ps @ map snd ps)" and "(w1, w2) \<in> set ps"
  shows "fold annotate_pair ps h w1 = annotate_pair (w1, w2) h w1
       \<and> fold annotate_pair ps h w2 = annotate_pair (w1, w2) h w2"
  using assms
proof (induction ps arbitrary: h)
  case Nil
  then show ?case by simp
next
  case (Cons p ps)
  from Cons.prems(1) have d: "distinct (map fst ps @ map snd ps)" by auto
  show ?case
  proof (cases "p = (w1, w2)")
    case True
    with Cons.prems(1) have "w1 \<notin> fst ` set ps" "w1 \<notin> snd ` set ps" "w2 \<notin> fst ` set ps" "w2 \<notin> snd ` set ps"
      by auto
    then show ?thesis by (simp add: True fold_annotate_other)
  next
    case False
    with Cons.prems(2) have m: "(w1, w2) \<in> set ps" by simp
    then have a: "w1 \<in> fst ` set ps" "w2 \<in> snd ` set ps" by force+
    from Cons.prems(1) have dp: "fst p \<notin> fst ` set ps" "fst p \<notin> snd ` set ps"
      "snd p \<notin> fst ` set ps" "snd p \<notin> snd ` set ps" "fst ` set ps \<inter> snd ` set ps = {}"
      by auto
    have n: "w1 \<noteq> fst p" "w1 \<noteq> snd p" "w2 \<noteq> fst p" "w2 \<noteq> snd p" "w1 \<noteq> w2"
      using a dp by blast+
    have e: "annotate_pair p h w1 = h w1" "annotate_pair p h w2 = h w2"
      using n by (simp_all add: annotate_pair_other)
    from Cons.IH[OF d m, of "annotate_pair p h"] show ?thesis
      by (simp add: annotate_pair_at[OF n(5)] e)
  qed
qed

lemma diag_move_props:
  assumes "diag_move (\<sigma>, A1, A2) x y = (\<sigma>', B1, B2)"
  shows "tokens B1 = x # tokens A1" and "tokens B2 = y # tokens A2"
    and "next_addr \<sigma>' = next_addr \<sigma>" and "cls (heap \<sigma>' a) = cls (heap \<sigma> a)"
    and "tok_text (heap \<sigma>' a) = tok_text (heap \<sigma> a)"
  using assms by (auto simp: diag_move_def text_insert0_eq)

lemma up_move_props:
  assumes "up_move (\<sigma>, A1, A2) x y = (\<sigma>', B1, B2)" and "cls (heap \<sigma> y) \<noteq> Spacer"
  shows "tokens B1 = x # tokens A1" and "tokens B2 = next_addr \<sigma> # tokens A2"
    and "next_addr \<sigma>' = Suc (next_addr \<sigma>)"
    and "a \<noteq> next_addr \<sigma> \<Longrightarrow> cls (heap \<sigma>' a) = cls (heap \<sigma> a)"
    and "a \<noteq> next_addr \<sigma> \<Longrightarrow> tok_text (heap \<sigma>' a) = tok_text (heap \<sigma> a)"
    and "cls (heap \<sigma>' (next_addr \<sigma>)) = Spacer" and "tok_text (heap \<sigma>' (next_addr \<sigma>)) = []"
  using assms
  by (auto simp: up_move_def text_insert0_eq spacer_for_def alloc_def isinstance_def new_token_def)

lemma left_move_props:
  assumes "left_move (\<sigma>, A1, A2) x y = (\<sigma>', B1, B2)" and "cls (heap \<sigma> x) \<noteq> Spacer"
  shows "tokens B1 = next_addr \<sigma> # tokens A1" and "tokens B2 = y # tokens A2"
    and "next_addr \<sigma>' = Suc (next_addr \<sigma>)"
    and "a \<noteq> next_addr \<sigma> \<Longrightarrow> cls (heap \<sigma>' a) = cls (heap \<sigma> a)"
    and "a \<noteq> next_addr \<sigma> \<Longrightarrow> tok_text (heap \<sigma>' a) = tok_text (heap \<sigma> a)"
    and "cls (heap \<sigma>' (next_addr \<sigma>)) = Spacer" and "tok_text (heap \<sigma>' (next_addr \<sigma>)) = []"
  using assms
  by (auto simp: left_move_def text_insert0_eq spacer_for_def alloc_def isinstance_def new_token_def)

lemma filter_old_push:
  assumes "filter (\<lambda>a. a < N) A = drop i s" and "0 < i" and "i \<le> length s" and "s ! (i - 1) < N"
  shows "filter (\<lambda>a. a < N) (s ! (i - 1) # A) = drop (i - 1) s"
proof -
  from assms(2,3) have "i - 1 < length s" by simp
  from Cons_nth_drop_Suc[OF this] assms(2) have "s ! (i - 1) # drop i s = drop (i - 1) s" by simp
  with assms(1,4) show ?thesis by simp
qed

lemma filter_old_member:
  assumes "filter (\<lambda>a. a < N) A = drop i s" and "a \<in> set A" and "a < N"
  shows "a \<in> set (drop i s)"
proof -
  from assms(2,3) have "a \<in> set (filter (\<lambda>a. a < N) A)" by simp
  with assms(1) show ?thesis by simp
qed

lemma nth_not_in_drop:
  assumes "distinct s" and "0 < i" and "i \<le> length s"
  shows "s ! (i - 1) \<notin> set (drop i s)"
proof -
  from assms(2,3) have k: "i - 1 < length s" by simp
  have "s = take (i - 1) s @ s ! (i - 1) # drop i s"
    using id_take_nth_drop[OF k] assms(2) by simp
  with assms(1) have "distinct (take (i - 1) s @ s ! (i - 1) # drop i s)" by simp
  then show ?thesis by simp
qed

lemma separate_inputsD:
  assumes "separate_inputs N h0 s1 s2"
  shows "distinct s1" and "distinct s2" and "set s1 \<inter> set s2 = {}"
    and "\<And>a. a \<in> set s1 \<Longrightarrow> a < N" and "\<And>a. a \<in> set s2 \<Longrightarrow> a < N"
    and "\<And>a. a \<in> set s1 \<Longrightarrow> cls (h0 a) \<noteq> Spacer" and "\<And>a. a \<in> set s2 \<Longrightarrow> cls (h0 a) \<noteq> Spacer"
  using assms by (auto simp: separate_inputs_def)

lemma aliasedD:
  assumes "aliased N h0 s1 s2 i j (\<sigma>, A1, A2)"
  shows "N \<le> next_addr \<sigma>"
    and "\<And>a. a \<in> set (tokens A1) \<Longrightarrow> a < next_addr \<sigma>"
    and "\<And>a. a \<in> set (tokens A2) \<Longrightarrow> a < next_addr \<sigma>"
    and "distinct (tokens A1 @ tokens A2)"
    and "filter (\<lambda>a. a < N) (tokens A1) = drop i s1"
    and "filter (\<lambda>a. a < N) (tokens A2) = drop j s2"
    and "\<And>a. a < N \<Longrightarrow> cls (heap \<sigma> a) = cls (h0 a)"
    and "\<And>a. a \<in> set (tokens A1) \<union> set (tokens A2) \<Longrightarrow> N \<le> a
           \<Longrightarrow> cls (heap \<sigma> a) = Spacer \<and> tok_text (heap \<sigma> a) = []"
  using assms by (auto simp: aliased_def)

lemma aliasedI:
  assumes "N \<le> next_addr \<sigma>"
    and "\<And>a. a \<in> set (tokens A1) \<Longrightarrow> a < next_addr \<sigma>"
    and "\<And>a. a \<in> set (tokens A2) \<Longrightarrow> a < next_addr \<sigma>"
    and "distinct (tokens A1 @ tokens A2)"
    and "filter (\<lambda>a. a < N) (tokens A1) = drop i s1"
    and "filter (\<lambda>a. a < N) (tokens A2) = drop j s2"
    and "\<And>a. a < N \<Longrightarrow> cls (heap \<sigma> a) = cls (h0 a)"
    and "\<And>a. a \<in> set (tokens A1) \<union> set (tokens A2) \<Longrightarrow> N \<le> a
           \<Longrightarrow> cls (heap \<sigma> a) = Spacer \<and> tok_text (heap \<sigma> a) = []"
  shows "aliased N h0 s1 s2 i j (\<sigma>, A1, A2)"
  using assms unfolding aliased_def prod.case by blast

text \<open>An input token about to be consumed is in neither aligned sequence yet.\<close>

lemma consumed_is_new:
  assumes inp: "separate_inputs N h0 s1 s2" and al: "aliased N h0 s1 s2 i j (\<sigma>, A1, A2)"
  shows "0 < i \<Longrightarrow> i \<le> length s1 \<Longrightarrow> s1 ! (i - 1) \<notin> set (tokens A1) \<union> set (tokens A2)"
    and "0 < j \<Longrightarrow> j \<le> length s2 \<Longrightarrow> s2 ! (j - 1) \<notin> set (tokens A1) \<union> set (tokens A2)"
proof -
  note i = separate_inputsD[OF inp] and a = aliasedD[OF al]
  show "s1 ! (i - 1) \<notin> set (tokens A1) \<union> set (tokens A2)" if "0 < i" "i \<le> length s1"
  proof
    let ?x = "s1 ! (i - 1)"
    from that have m: "?x \<in> set s1" by simp
    then have o: "?x < N" by (rule i(4))
    assume "?x \<in> set (tokens A1) \<union> set (tokens A2)"
    then show False
    proof
      assume "?x \<in> set (tokens A1)"
      from filter_old_member[OF a(5) this o] nth_not_in_drop[OF i(1) that] show False by simp
    next
      assume "?x \<in> set (tokens A2)"
      from filter_old_member[OF a(6) this o] have "?x \<in> set s2" by (rule in_set_dropD)
      with m i(3) show False by blast
    qed
  qed
  show "s2 ! (j - 1) \<notin> set (tokens A1) \<union> set (tokens A2)" if "0 < j" "j \<le> length s2"
  proof
    let ?y = "s2 ! (j - 1)"
    from that have m: "?y \<in> set s2" by simp
    then have o: "?y < N" by (rule i(5))
    assume "?y \<in> set (tokens A1) \<union> set (tokens A2)"
    then show False
    proof
      assume "?y \<in> set (tokens A2)"
      from filter_old_member[OF a(6) this o] nth_not_in_drop[OF i(2) that] show False by simp
    next
      assume "?y \<in> set (tokens A1)"
      from filter_old_member[OF a(5) this o] have "?y \<in> set s1" by (rule in_set_dropD)
      with m i(3) show False by blast
    qed
  qed
qed

lemma aliased_diag:
  assumes inp: "separate_inputs N h0 s1 s2" and al: "aliased N h0 s1 s2 i j st"
    and i: "0 < i" "i \<le> length s1" and j: "0 < j" "j \<le> length s2"
  shows "aliased N h0 s1 s2 (i - 1) (j - 1) (diag_move st (s1 ! (i - 1)) (s2 ! (j - 1)))"
proof -
  let ?x = "s1 ! (i - 1)" and ?y = "s2 ! (j - 1)"
  obtain \<sigma> A1 A2 where st: "st = (\<sigma>, A1, A2)" by (cases st)
  obtain \<sigma>' B1 B2 where m: "diag_move (\<sigma>, A1, A2) ?x ?y = (\<sigma>', B1, B2)" by (metis prod_cases3)
  note p = diag_move_props[OF m] and a = aliasedD[OF al[unfolded st]]
    and k = separate_inputsD[OF inp] and c = consumed_is_new[OF inp al[unfolded st]]
  from i j have mem: "?x \<in> set s1" "?y \<in> set s2" by simp_all
  then have old: "?x < N" "?y < N" by (simp_all add: k(4,5))
  have ne: "?x \<noteq> ?y"
  proof
    assume "?x = ?y"
    with mem have "?x \<in> set s1 \<inter> set s2" by simp
    with k(3) show False by simp
  qed
  have "aliased N h0 s1 s2 (i - 1) (j - 1) (\<sigma>', B1, B2)"
  proof (rule aliasedI)
    show "N \<le> next_addr \<sigma>'" by (simp add: p(3) a(1))
    show "a < next_addr \<sigma>'" if "a \<in> set (tokens B1)" for a
      using that old(1) a(1,2) by (auto simp: p)
    show "a < next_addr \<sigma>'" if "a \<in> set (tokens B2)" for a
      using that old(2) a(1,3) by (auto simp: p)
    show "distinct (tokens B1 @ tokens B2)"
      using a(4) c(1)[OF i] c(2)[OF j] ne by (auto simp: p)
    show "filter (\<lambda>a. a < N) (tokens B1) = drop (i - 1) s1"
      unfolding p by (rule filter_old_push[OF a(5) i old(1)])
    show "filter (\<lambda>a. a < N) (tokens B2) = drop (j - 1) s2"
      unfolding p by (rule filter_old_push[OF a(6) j old(2)])
    show "cls (heap \<sigma>' a) = cls (h0 a)" if "a < N" for a
      using a(7)[OF that] by (simp add: p(4))
    show "cls (heap \<sigma>' a) = Spacer \<and> tok_text (heap \<sigma>' a) = []"
      if "a \<in> set (tokens B1) \<union> set (tokens B2)" "N \<le> a" for a
    proof -
      from that old have "a \<in> set (tokens A1) \<union> set (tokens A2)" by (auto simp: p(1,2))
      from a(8)[OF this that(2)] show ?thesis by (simp add: p(4,5))
    qed
  qed
  then show ?thesis unfolding st m .
qed

lemma aliased_up:
  assumes inp: "separate_inputs N h0 s1 s2" and al: "aliased N h0 s1 s2 i j st"
    and i: "0 < i" "i \<le> length s1" and y: "y \<in> set s2"
  shows "aliased N h0 s1 s2 (i - 1) j (up_move st (s1 ! (i - 1)) y)"
proof -
  let ?x = "s1 ! (i - 1)"
  obtain \<sigma> A1 A2 where st: "st = (\<sigma>, A1, A2)" by (cases st)
  obtain \<sigma>' B1 B2 where m: "up_move (\<sigma>, A1, A2) ?x y = (\<sigma>', B1, B2)" by (metis prod_cases3)
  note a = aliasedD[OF al[unfolded st]]
    and k = separate_inputsD[OF inp] and c = consumed_is_new[OF inp al[unfolded st]]
  have "cls (heap \<sigma> y) \<noteq> Spacer" using a(7)[OF k(5)[OF y]] k(7)[OF y] by simp
  note p = up_move_props[OF m this]
  from i have mem: "?x \<in> set s1" by simp
  then have old: "?x < N" by (simp add: k(4))
  have fresh: "next_addr \<sigma> \<notin> set (tokens A1)" "next_addr \<sigma> \<notin> set (tokens A2)" "next_addr \<sigma> \<noteq> ?x"
    using a(2,3) a(1) old by (auto dest: less_irrefl_nat)
  have "aliased N h0 s1 s2 (i - 1) j (\<sigma>', B1, B2)"
  proof (rule aliasedI)
    show "N \<le> next_addr \<sigma>'" using a(1) by (simp add: p(3))
    show "a < next_addr \<sigma>'" if "a \<in> set (tokens B1)" for a
      using that old a(1) a(2)[of a] by (auto simp: p)
    show "a < next_addr \<sigma>'" if "a \<in> set (tokens B2)" for a
      using that a(3)[of a] by (auto simp: p)
    show "distinct (tokens B1 @ tokens B2)"
      using a(4) c(1)[OF i] fresh by (auto simp: p)
    show "filter (\<lambda>a. a < N) (tokens B1) = drop (i - 1) s1"
      unfolding p by (rule filter_old_push[OF a(5) i old])
    show "filter (\<lambda>a. a < N) (tokens B2) = drop j s2"
      using a(6) a(1) by (simp add: p)
    show "cls (heap \<sigma>' a) = cls (h0 a)" if "a < N" for a
      using a(7)[OF that] a(1) that by (simp add: p(4))
    show "cls (heap \<sigma>' a) = Spacer \<and> tok_text (heap \<sigma>' a) = []"
      if "a \<in> set (tokens B1) \<union> set (tokens B2)" "N \<le> a" for a
    proof (cases "a = next_addr \<sigma>")
      case True
      then show ?thesis by (simp add: p(6,7))
    next
      case False
      with that old have m: "a \<in> set (tokens A1) \<union> set (tokens A2)" by (auto simp: p(1,2))
      from a(8)[OF m that(2)] False show ?thesis by (simp add: p(4,5))
    qed
  qed
  then show ?thesis unfolding st m .
qed

lemma aliased_left:
  assumes inp: "separate_inputs N h0 s1 s2" and al: "aliased N h0 s1 s2 i j st"
    and j: "0 < j" "j \<le> length s2" and x: "x \<in> set s1"
  shows "aliased N h0 s1 s2 i (j - 1) (left_move st x (s2 ! (j - 1)))"
proof -
  let ?y = "s2 ! (j - 1)"
  obtain \<sigma> A1 A2 where st: "st = (\<sigma>, A1, A2)" by (cases st)
  obtain \<sigma>' B1 B2 where m: "left_move (\<sigma>, A1, A2) x ?y = (\<sigma>', B1, B2)" by (metis prod_cases3)
  note a = aliasedD[OF al[unfolded st]]
    and k = separate_inputsD[OF inp] and c = consumed_is_new[OF inp al[unfolded st]]
  have "cls (heap \<sigma> x) \<noteq> Spacer" using a(7)[OF k(4)[OF x]] k(6)[OF x] by simp
  note p = left_move_props[OF m this]
  from j have mem: "?y \<in> set s2" by simp
  then have old: "?y < N" by (simp add: k(5))
  have fresh: "next_addr \<sigma> \<notin> set (tokens A1)" "next_addr \<sigma> \<notin> set (tokens A2)" "next_addr \<sigma> \<noteq> ?y"
    using a(2,3) a(1) old by (auto dest: less_irrefl_nat)
  have "aliased N h0 s1 s2 i (j - 1) (\<sigma>', B1, B2)"
  proof (rule aliasedI)
    show "N \<le> next_addr \<sigma>'" using a(1) by (simp add: p(3))
    show "a < next_addr \<sigma>'" if "a \<in> set (tokens B1)" for a
      using that a(2)[of a] by (auto simp: p)
    show "a < next_addr \<sigma>'" if "a \<in> set (tokens B2)" for a
      using that old a(1) a(3)[of a] by (auto simp: p)
    show "distinct (tokens B1 @ tokens B2)"
      using a(4) c(2)[OF j] fresh by (auto simp: p)
    show "filter (\<lambda>a. a < N) (tokens B1) = drop i s1"
      using a(5) a(1) by (simp add: p)
    show "filter (\<lambda>a. a < N) (tokens B2) = drop (j - 1) s2"
      unfolding p by (rule filter_old_push[OF a(6) j old])
    show "cls (heap \<sigma>' a) = cls (h0 a)" if "a < N" for a
      using a(7)[OF that] a(1) that by (simp add: p(4))
    show "cls (heap \<sigma>' a) = Spacer \<and> tok_text (heap \<sigma>' a) = []"
      if "a \<in> set (tokens B1) \<union> set (tokens B2)" "N \<le> a" for a
    proof (cases "a = next_addr \<sigma>")
      case True
      then show ?thesis by (simp add: p(6,7))
    next
      case False
      with that old have m: "a \<in> set (tokens A1) \<union> set (tokens A2)" by (auto simp: p(1,2))
      from a(8)[OF m that(2)] False show ?thesis by (simp add: p(4,5))
    qed
  qed
  then show ?thesis unfolding st m .
qed

lemma py_nth_Inr: "py_nth xs k = Inr x \<Longrightarrow> k < length xs \<and> x = xs ! k"
  by (auto simp: py_nth_def split: if_splits)

lemma py_nth2_Inr: "py_nth2 T i j = Inr t \<Longrightarrow> t = T ! i ! j"
  by (auto simp: py_nth2_def py_nth_def split: if_splits sum.splits)

lemma offers_moveD:
  assumes "offers_move T n m" and "i \<le> n" and "j \<le> m"
    and "\<not> (CHR ''D'' \<in> set (T ! i ! j) \<and> 0 < i \<and> 0 < j)"
    and "\<not> (CHR ''U'' \<in> set (T ! i ! j) \<and> 0 < i)"
    and "\<not> (CHR ''L'' \<in> set (T ! i ! j) \<and> 0 < j)"
  shows "i = 0 \<and> j = 0"
proof (rule ccontr)
  assume "\<not> (i = 0 \<and> j = 0)"
  then have "0 < i \<or> 0 < j" by simp
  with assms(1,2,3) have "(CHR ''D'' \<in> set (T ! i ! j) \<and> 0 < i \<and> 0 < j)
        \<or> (CHR ''U'' \<in> set (T ! i ! j) \<and> 0 < i)
        \<or> (CHR ''L'' \<in> set (T ! i ! j) \<and> 0 < j)"
    unfolding offers_move_def by blast
  with assms(4,5,6) show False by blast
qed

text \<open>The walk ends at cell \<open>(0, 0)\<close> with every input object in its aligned sequence.\<close>

lemma walk_aliased:
  "walk T s1 s2 i j st = Inr st' \<Longrightarrow> separate_inputs N h0 s1 s2
    \<Longrightarrow> offers_move T (length s1) (length s2) \<Longrightarrow> aliased N h0 s1 s2 i j st
    \<Longrightarrow> i \<le> length s1 \<Longrightarrow> j \<le> length s2 \<Longrightarrow> aliased N h0 s1 s2 0 0 st'"
proof (induction T s1 s2 i j st rule: walk.induct)
  case (1 T s1 s2 i j st)
  note run = "1.prems"(1) and inp = "1.prems"(2) and off = "1.prems"(3) and al = "1.prems"(4)
    and bi = "1.prems"(5) and bj = "1.prems"(6)
  from run obtain trace token1 token2 where
    tr: "py_nth2 T i j = Inr trace" and t1: "py_nth s1 (if i > 0 then i - 1 else 0) = Inr token1"
    and t2: "py_nth s2 (if j > 0 then j - 1 else 0) = Inr token2"
    by (rule walk_Inr_lookups)
  note IH = "1.IH"[OF tr t1 t2]
  note w = walk_unfold[OF tr t1 t2, of st]
  have trace: "trace = T ! i ! j" using tr by (rule py_nth2_Inr)
  from py_nth_Inr[OF t1] have m1: "token1 \<in> set s1" and e1: "0 < i \<Longrightarrow> token1 = s1 ! (i - 1)"
    by auto
  from py_nth_Inr[OF t2] have m2: "token2 \<in> set s2" and e2: "0 < j \<Longrightarrow> token2 = s2 ! (j - 1)"
    by auto
  consider (D) "CHR ''D'' \<in> set trace \<and> i > 0 \<and> j > 0"
    | (U) "\<not> (CHR ''D'' \<in> set trace \<and> i > 0 \<and> j > 0)" "CHR ''U'' \<in> set trace \<and> i > 0"
    | (L) "\<not> (CHR ''D'' \<in> set trace \<and> i > 0 \<and> j > 0)" "\<not> (CHR ''U'' \<in> set trace \<and> i > 0)"
          "CHR ''L'' \<in> set trace \<and> j > 0"
    | (B) "\<not> (CHR ''D'' \<in> set trace \<and> i > 0 \<and> j > 0)" "\<not> (CHR ''U'' \<in> set trace \<and> i > 0)"
          "\<not> (CHR ''L'' \<in> set trace \<and> j > 0)"
    by blast
  then show ?case
  proof cases
    case D
    then have pi: "0 < i" and pj: "0 < j" by simp_all
    have "walk T s1 s2 i j st = walk T s1 s2 (i - 1) (j - 1) (diag_move st token1 token2)"
      using D by (auto simp: w)
    with run have r: "walk T s1 s2 (i - 1) (j - 1) (diag_move st token1 token2) = Inr st'"
      by simp
    have a: "aliased N h0 s1 s2 (i - 1) (j - 1) (diag_move st token1 token2)"
      unfolding e1[OF pi] e2[OF pj] by (rule aliased_diag[OF inp al pi bi pj bj])
    from bi bj have b: "i - 1 \<le> length s1" "j - 1 \<le> length s2" by simp_all
    show ?thesis by (rule IH(1)[OF D r inp off a b])
  next
    case U
    then have pi: "0 < i" by simp
    have "walk T s1 s2 i j st = walk T s1 s2 (i - 1) j (up_move st token1 token2)"
      using U by (auto simp: w)
    with run have r: "walk T s1 s2 (i - 1) j (up_move st token1 token2) = Inr st'"
      by simp
    have a: "aliased N h0 s1 s2 (i - 1) j (up_move st token1 token2)"
      unfolding e1[OF pi] by (rule aliased_up[OF inp al pi bi m2])
    from bi have b: "i - 1 \<le> length s1" by simp
    show ?thesis by (rule IH(2)[OF U r inp off a b bj])
  next
    case L
    then have pj: "0 < j" by simp
    have "walk T s1 s2 i j st = walk T s1 s2 i (j - 1) (left_move st token1 token2)"
      using L by (auto simp: w)
    with run have r: "walk T s1 s2 i (j - 1) (left_move st token1 token2) = Inr st'"
      by simp
    have a: "aliased N h0 s1 s2 i (j - 1) (left_move st token1 token2)"
      unfolding e2[OF pj] by (rule aliased_left[OF inp al pj bj m1])
    from bj have b: "j - 1 \<le> length s2" by simp
    show ?thesis by (rule IH(3)[OF L r inp off a bi b])
  next
    case B
    then have "walk T s1 s2 i j st = Inr st" by (auto simp: w)
    with run have s: "st' = st" by simp
    from offers_moveD[OF off bi bj B[unfolded trace]] have "i = 0" "j = 0" by simp_all
    with al s show ?thesis by simp
  qed
qed

lemma cell_offers_move:
  assumes "cell_spec P h s1 s2 S T i j"
  shows "CHR ''D'' \<in> set (T ! i ! j) \<or> CHR ''U'' \<in> set (T ! i ! j) \<or> CHR ''L'' \<in> set (T ! i ! j)"
proof -
  from assms obtain d where
    s: "S ! i ! j = max (max d (S ! (i - 1) ! j + gap_score P)) (S ! i ! (j - 1) + gap_score P)"
    and t: "T ! i ! j = (if S ! i ! j = d then ''D'' else [])
                     @ (if S ! i ! j = S ! (i - 1) ! j + gap_score P then ''U'' else [])
                     @ (if S ! i ! j = S ! i ! (j - 1) + gap_score P then ''L'' else [])"
    unfolding cell_spec_def by blast
  define x where "x = S ! i ! j"
  define u where "u = S ! (i - 1) ! j + gap_score P"
  define l where "l = S ! i ! (j - 1) + gap_score P"
  from s have "x = max (max d u) l" by (simp add: x_def u_def l_def)
  then have "x = d \<or> x = u \<or> x = l" by (auto simp: max_def)
  then show ?thesis
    unfolding t tags_membership x_def u_def l_def .
qed

lemma scorer_offers_move:
  assumes f: "fill_matrices P h s1 s2 = Inr (S, T)"
  shows "offers_move T (length s1) (length s2)"
  unfolding offers_move_def
proof (intro allI impI)
  fix i j assume i: "i \<le> length s1" and j: "j \<le> length s2" and p: "0 < i \<or> 0 < j"
  consider (both) "0 < i" "0 < j" | (col) "0 < i" "j = 0" | (row) "i = 0" "0 < j"
    using p by auto
  then show "(CHR ''D'' \<in> set (T ! i ! j) \<and> 0 < i \<and> 0 < j)
        \<or> (CHR ''U'' \<in> set (T ! i ! j) \<and> 0 < i)
        \<or> (CHR ''L'' \<in> set (T ! i ! j) \<and> 0 < j)"
  proof cases
    case both
    then have "1 \<le> i" "1 \<le> j" by simp_all
    from fill_matrices_props(8)[OF f this(1) i this(2) j]
    have "cell_spec P h s1 s2 S T i j" .
    from cell_offers_move[OF this] both show ?thesis by blast
  next
    case col
    then have "1 \<le> i" by simp
    from fill_matrices_props(6)[OF f this i] col show ?thesis by simp
  next
    case row
    then have "1 \<le> j" by simp
    from fill_matrices_props(7)[OF f this j] row show ?thesis by simp
  qed
qed

lemma empty_Text_props:
  assumes "empty_Text \<sigma> = (\<sigma>', E)"
  shows "tokens E = []" and "next_addr \<sigma>' = next_addr \<sigma>" and "heap \<sigma>' = heap \<sigma>"
  using assms by (auto simp: empty_Text_def recalculate_indices_eq recalc_loop.simps(1))

text \<open>The stages of \<^verbatim>\<open>align_sentences\<close> when it returns.\<close>

lemma align_sentences_Inr:
  assumes "align_sentences \<sigma> text1 text2 = Inr (\<sigma>', a1, a2)"
  obtains S T \<sigma>b E1 E2 \<sigma>3 B1 B2 where
    "fill_matrices default_scoring (heap (clear_alignment (clear_alignment \<sigma> text1) text2))
       (tokens text1) (tokens text2) = Inr (S, T)"
    and "walk T (tokens text1) (tokens text2) (length (tokens text1)) (length (tokens text2))
       (\<sigma>b, E1, E2) = Inr (\<sigma>3, B1, B2)"
    and "tokens E1 = []" and "tokens E2 = []"
    and "next_addr \<sigma>b = next_addr \<sigma>"
    and "\<forall>a. cls (heap \<sigma>b a) = cls (heap \<sigma> a)"
    and "tokens a1 = tokens B1" and "tokens a2 = tokens B2"
    and "heap \<sigma>' = recalc_loop (recalc_loop (fold annotate_pair (zip (tokens B1) (tokens B2)) (heap \<sigma>3))
                       (tokens B1) 0 0) (tokens B2) 0 0"
proof -
  from assms obtain \<sigma>1 S T where
    nw: "needleman_wunsch_alignment_words_substring default_scoring \<sigma> text1 text2 = Inr (\<sigma>1, S, T)"
    by (cases "needleman_wunsch_alignment_words_substring default_scoring \<sigma> text1 text2")
      (auto simp: align_sentences_def)
  note n = needleman_wunsch_Inr[OF nw]
  from assms obtain \<sigma>2 B1 B2 where
    g: "get_alignment_and_visualization_words \<sigma>1 text1 text2 T = Inr (\<sigma>2, B1, B2)"
    unfolding align_sentences_def nw sum.case prod.case
    by (cases "get_alignment_and_visualization_words \<sigma>1 text1 text2 T") auto
  from assms have r: "(let (\<sigma>3, a1) = recalculate_indices \<sigma>2 B1;
               (\<sigma>4, a2) = recalculate_indices \<sigma>3 B2
           in Inr (\<sigma>4, a1, a2)) = (Inr (\<sigma>', a1, a2) :: error + walk_state)"
    unfolding align_sentences_def nw sum.case prod.case g .
  obtain \<sigma>a E1 where e1: "empty_Text \<sigma>1 = (\<sigma>a, E1)" by (cases "empty_Text \<sigma>1")
  obtain \<sigma>b E2 where e2: "empty_Text \<sigma>a = (\<sigma>b, E2)" by (cases "empty_Text \<sigma>a")
  note p1 = empty_Text_props[OF e1] and p2 = empty_Text_props[OF e2]
  let ?w = "walk T (tokens text1) (tokens text2) (length (tokens text1)) (length (tokens text2))
       (\<sigma>b, E1, E2)"
  from g have g': "(case ?w of Inl e \<Rightarrow> Inl e
         | Inr (\<sigma>3, A1, A2) \<Rightarrow>
             Inr (\<sigma>3\<lparr> heap := fold annotate_pair (zip (tokens A1) (tokens A2)) (heap \<sigma>3) \<rparr>, A1, A2))
       = Inr (\<sigma>2, B1, B2)"
    unfolding get_alignment_and_visualization_words_def Let_def e1 e2 prod.case .
  then obtain \<sigma>3 where w: "?w = Inr (\<sigma>3, B1, B2)"
    and s2: "\<sigma>2 = \<sigma>3\<lparr> heap := fold annotate_pair (zip (tokens B1) (tokens B2)) (heap \<sigma>3) \<rparr>"
    by (cases ?w) auto
  from r have t: "tokens a1 = tokens B1" "tokens a2 = tokens B2"
    and h: "heap \<sigma>' = recalc_loop (recalc_loop (heap \<sigma>2) (tokens B1) 0 0) (tokens B2) 0 0"
    by (auto simp: recalculate_indices_eq)
  show thesis
  proof (rule that)
    show "fill_matrices default_scoring (heap (clear_alignment (clear_alignment \<sigma> text1) text2))
       (tokens text1) (tokens text2) = Inr (S, T)"
      using n by simp
    show "?w = Inr (\<sigma>3, B1, B2)" by (rule w)
    show "tokens E1 = []" "tokens E2 = []" by (rule p1 p2)+
    show "next_addr \<sigma>b = next_addr \<sigma>" by (simp add: p1 p2 n(1))
    show "\<forall>a. cls (heap \<sigma>b a) = cls (heap \<sigma> a)" by (simp add: p1 p2 n(1))
    show "tokens a1 = tokens B1" "tokens a2 = tokens B2" by (rule t)+
    show "heap \<sigma>' = recalc_loop (recalc_loop (fold annotate_pair (zip (tokens B1) (tokens B2)) (heap \<sigma>3))
                       (tokens B1) 0 0) (tokens B2) 0 0"
      using h by (simp add: s2)
  qed
qed

lemma distinct_zip_parts:
  assumes "distinct (as @ bs)" and "length as = length bs"
  shows "distinct (map fst (zip as bs) @ map snd (zip as bs))"
  using assms by simp

lemma same_fill:
  "fill_matrices default_scoring (heap same_cleared) (tokens same_text1) (tokens same_text2)
     = Inr (same_S, same_T)"
  by code_simp

lemma same_scorer:
  "needleman_wunsch_alignment_words_substring default_scoring same_store same_text1 same_text2
     = Inr (same_cleared, same_S, same_T)"
  unfolding needleman_wunsch_alignment_words_substring_def Let_def same_cleared_def[symmetric] same_fill
  by simp

lemma same_view:
  "view (align_sentences same_store same_text1 same_text2) =
     Inr ([(0, (new_token Word ''big'')\<lparr> index := Some 0, start := Some 0, color := None \<rparr>),
           (1, (new_token Word ''cat'')\<lparr> index := Some 1, start := Some 4, color := None \<rparr>)],
          [(2, (new_token Word ''big'')\<lparr> index := Some 0, start := Some 0, color := None \<rparr>),
           (3, (new_token Word ''cat'')\<lparr> index := Some 1, start := Some 4, color := None \<rparr>)])
   \<and> map (\<lambda>a. (index (heap same_store a), start (heap same_store a))) (tokens same_text1)
       = [(Some 0, Some 0), (Some 1, Some 4)]
   \<and> map (\<lambda>a. (index (heap same_store a), start (heap same_store a))) (tokens same_text2)
       = [(Some 0, Some 0), (Some 1, Some 4)]
   \<and> aligned ((new_token Word ''big'')\<lparr> index := Some 0, start := Some 0, color := None \<rparr>) = False"
  unfolding align_sentences_def same_scorer sum.case prod.case
  by code_simp

lemma twice_fill:
  "fill_matrices default_scoring (heap twice_cleared) (tokens twice_text1) (tokens twice_text2)
     = Inr (twice_S, twice_T)"
  by code_simp

lemma twice_scorer:
  "needleman_wunsch_alignment_words_substring default_scoring twice_store twice_text1 twice_text2
     = Inr (twice_cleared, twice_S, twice_T)"
  unfolding needleman_wunsch_alignment_words_substring_def Let_def twice_cleared_def[symmetric] twice_fill
  by simp

lemma twice_positions:
  "positions (align_sentences twice_store twice_text1 twice_text2) =
     Inr ([(1, Spacer, Some 0, Some 0), (0, Word, Some 1, Some 2)],
          [(0, Word, Some 1, Some 2), (0, Word, Some 1, Some 2)])"
  unfolding align_sentences_def twice_scorer sum.case prod.case
  by code_simp

lemma gap_fill:
  "fill_matrices default_scoring (heap gap_cleared) (tokens gap_text1) (tokens gap_text2)
     = Inr (gap_S, gap_T)"
  by code_simp

lemma gap_scorer:
  "needleman_wunsch_alignment_words_substring default_scoring gap_store gap_text1 gap_text2
     = Inr (gap_cleared, gap_S, gap_T)"
  unfolding needleman_wunsch_alignment_words_substring_def Let_def gap_cleared_def[symmetric] gap_fill
  by simp

lemma gap_positions:
  "positions (align_sentences gap_store gap_text1 gap_text2) =
     Inr ([(0, Spacer, Some 1, Some 0), (0, Spacer, Some 1, Some 0)],
          [(1, Word, Some 0, Some 0), (2, Word, Some 1, Some 4)])"
  unfolding align_sentences_def gap_scorer sum.case prod.case
  by code_simp

text \<open>
  Claim C10 as stated fails.  The token objects of the inputs are shared with the aligned
  sequences and their index and start are written again, but with the positions in the
  aligned sequences, which are those of the inputs whenever no gap comes before the token;
  and the post-pass writes nothing into a pair of tokens with equal texts.  Aligning
  \<open>big cat\<close> with another \<open>big cat\<close> leaves the four input tokens with the indices
  \<open>0, 1\<close> and the starts \<open>0, 4\<close> they had in their input sequences, not aligned, with
  no padding and no colour.

  Nor do the positions written always agree with the aligned sequences.  When a token
  object occurs twice in the inputs (\<open>a\<close> against \<open>a a\<close> over one object), the second
  aligned sequence holds at position \<open>0\<close> a token with index \<open>1\<close>.  When an input token
  is a gap placeholder (a \<open>Spacer\<close> against \<open>big cat\<close>), the walk takes it as the
  placeholder of the gap instead of allocating one, and the first aligned sequence holds
  that one object twice, with index \<open>1\<close> at both positions.
\<close>

theorem identical_texts_keep_their_indices:
  "(view (align_sentences same_store same_text1 same_text2) =
     Inr ([(0, (new_token Word ''big'')\<lparr> index := Some 0, start := Some 0, color := None \<rparr>),
           (1, (new_token Word ''cat'')\<lparr> index := Some 1, start := Some 4, color := None \<rparr>)],
          [(2, (new_token Word ''big'')\<lparr> index := Some 0, start := Some 0, color := None \<rparr>),
           (3, (new_token Word ''cat'')\<lparr> index := Some 1, start := Some 4, color := None \<rparr>)])
   \<and> map (\<lambda>a. (index (heap same_store a), start (heap same_store a))) (tokens same_text1)
       = [(Some 0, Some 0), (Some 1, Some 4)]
   \<and> map (\<lambda>a. (index (heap same_store a), start (heap same_store a))) (tokens same_text2)
       = [(Some 0, Some 0), (Some 1, Some 4)]
   \<and> aligned ((new_token Word ''big'')\<lparr> index := Some 0, start := Some 0, color := None \<rparr>) = False)
   \<and> positions (align_sentences twice_store twice_text1 twice_text2) =
     Inr ([(1, Spacer, Some 0, Some 0), (0, Word, Some 1, Some 2)],
          [(0, Word, Some 1, Some 2), (0, Word, Some 1, Some 2)])
   \<and> positions (align_sentences gap_store gap_text1 gap_text2) =
     Inr ([(0, Spacer, Some 1, Some 0), (0, Spacer, Some 1, Some 0)],
          [(1, Word, Some 0, Some 0), (2, Word, Some 1, Some 4)])"
  by (rule conjI[OF same_view conjI[OF twice_positions gap_positions]])

text \<open>
  Claim C10, as amended.  Let the two input sequences hold different token objects, none
  of them a gap placeholder, all allocated before the call.  When \<^verbatim>\<open>align_sentences\<close>
  returns, each aligned sequence holds the token objects of its input sequence themselves,
  in their order; every other token of the aligned sequences is a gap placeholder, a
  \<open>Spacer\<close> object with the empty text allocated during the call; every token of an
  aligned sequence, the shared input tokens included, carries as index its position in the
  aligned sequence and as start its character offset there; and the two tokens of every
  aligned pair with different texts are marked aligned, padded to the longer of the two
  and coloured with the key of the pair.
\<close>

theorem align_shares_and_reindexes_tokens:
  assumes sep: "separate_inputs (next_addr \<sigma>) (heap \<sigma>) (tokens text1) (tokens text2)"
    and run: "align_sentences \<sigma> text1 text2 = Inr (\<sigma>', a1, a2)"
  shows "filter (\<lambda>a. a < next_addr \<sigma>) (tokens a1) = tokens text1
       \<and> filter (\<lambda>a. a < next_addr \<sigma>) (tokens a2) = tokens text2
       \<and> (\<forall>a \<in> set (tokens a1 @ tokens a2).
             a < next_addr \<sigma> \<or> cls (heap \<sigma>' a) = Spacer \<and> tok_text (heap \<sigma>' a) = [])
       \<and> reindexed (heap \<sigma>') (tokens a1) \<and> reindexed (heap \<sigma>') (tokens a2)
       \<and> annotated (heap \<sigma>') (tokens a1) (tokens a2)"
proof -
  let ?s1 = "tokens text1" and ?s2 = "tokens text2" and ?N = "next_addr \<sigma>"
  from run obtain S T \<sigma>b E1 E2 \<sigma>3 B1 B2 where
    f: "fill_matrices default_scoring (heap (clear_alignment (clear_alignment \<sigma> text1) text2))
       ?s1 ?s2 = Inr (S, T)"
    and w: "walk T ?s1 ?s2 (length ?s1) (length ?s2) (\<sigma>b, E1, E2) = Inr (\<sigma>3, B1, B2)"
    and e: "tokens E1 = []" "tokens E2 = []"
    and nb: "next_addr \<sigma>b = ?N"
    and cb: "\<forall>a. cls (heap \<sigma>b a) = cls (heap \<sigma> a)"
    and t: "tokens a1 = tokens B1" "tokens a2 = tokens B2"
    and h: "heap \<sigma>' = recalc_loop (recalc_loop (fold annotate_pair (zip (tokens B1) (tokens B2)) (heap \<sigma>3))
                       (tokens B1) 0 0) (tokens B2) 0 0"
    by (rule align_sentences_Inr)
  let ?b1 = "tokens B1" and ?b2 = "tokens B2"
  define hA where "hA = fold annotate_pair (zip ?b1 ?b2) (heap \<sigma>3)"
  define hB where "hB = recalc_loop hA ?b1 0 0"
  have h': "heap \<sigma>' = recalc_loop hB ?b2 0 0" unfolding h hB_def hA_def ..
  have a0: "aliased ?N (heap \<sigma>) ?s1 ?s2 (length ?s1) (length ?s2) (\<sigma>b, E1, E2)"
    by (rule aliasedI) (simp_all add: e nb cb)
  have "aliased ?N (heap \<sigma>) ?s1 ?s2 0 0 (\<sigma>3, B1, B2)"
    by (rule walk_aliased[OF w sep scorer_offers_move[OF f] a0 order_refl order_refl])
  note a = aliasedD[OF this]
  from a(5) have c1: "filter (\<lambda>a. a < ?N) (tokens a1) = ?s1" by (simp add: t)
  from a(6) have c2: "filter (\<lambda>a. a < ?N) (tokens a2) = ?s2" by (simp add: t)
  have "same_length (\<sigma>b, E1, E2)" by (simp add: same_length_def e)
  with w have "same_length (\<sigma>3, B1, B2)" by (rule walk_same_length)
  then have len: "length ?b1 = length ?b2" by (simp add: same_length_def)
  from a(4) have d1: "distinct ?b1" and d2: "distinct ?b2" and dj: "set ?b1 \<inter> set ?b2 = {}"
    by simp_all
  have cl: "cls (heap \<sigma>' x) = cls (heap \<sigma>3 x)" and tx: "tok_text (heap \<sigma>' x) = tok_text (heap \<sigma>3 x)"
    and al: "aligned (heap \<sigma>' x) = aligned (hA x)"
    and sp: "alignment_spaces (heap \<sigma>' x) = alignment_spaces (hA x)"
    and co: "color (heap \<sigma>' x) = color (hA x)" for x
    by (simp_all add: h' hB_def hA_def)
  have ln: "tok_len (heap \<sigma>' x) = tok_len (heap \<sigma>3 x)" for x
    by (simp add: tok_len_def tx)
  have pk: "pair_key (heap \<sigma>' x) (heap \<sigma>' y) = pair_key (heap \<sigma>3 x) (heap \<sigma>3 y)" for x y
    by (simp add: pair_key_def cl)
  have c3: "reindexed (heap \<sigma>') (tokens a1)"
    unfolding reindexed_def t
  proof (intro ballI conjI)
    fix k assume "k \<in> {..< length ?b1}"
    then have k: "k < length ?b1" by simp
    then have "?b1 ! k \<in> set ?b1" by simp
    with dj have "?b1 ! k \<notin> set ?b2" by blast
    then have s: "heap \<sigma>' (?b1 ! k) = hB (?b1 ! k)" by (simp add: h')
    have fo: "flat_offsets (heap \<sigma>') ?b1 0 = flat_offsets hA ?b1 0"
      by (rule flat_offsets_cong) (simp_all add: h' hB_def)
    show "index (heap \<sigma>' (?b1 ! k)) = Some k"
      unfolding s hB_def using recalc_loop_index[OF d1 k, of hA 0 0] by simp
    show "start (heap \<sigma>' (?b1 ! k)) = Some (flat_offsets (heap \<sigma>') ?b1 0 ! k)"
      unfolding s fo hB_def by (rule recalc_loop_start[OF d1 k])
  qed
  have c4: "reindexed (heap \<sigma>') (tokens a2)"
    unfolding reindexed_def t
  proof (intro ballI conjI)
    fix k assume "k \<in> {..< length ?b2}"
    then have k: "k < length ?b2" by simp
    have fo: "flat_offsets (heap \<sigma>') ?b2 0 = flat_offsets hB ?b2 0"
      by (rule flat_offsets_cong) (simp_all add: h')
    show "index (heap \<sigma>' (?b2 ! k)) = Some k"
      unfolding h' using recalc_loop_index[OF d2 k, of hB 0 0] by simp
    show "start (heap \<sigma>' (?b2 ! k)) = Some (flat_offsets (heap \<sigma>') ?b2 0 ! k)"
      unfolding fo unfolding h' by (rule recalc_loop_start[OF d2 k])
  qed
  have c5: "annotated (heap \<sigma>') (tokens a1) (tokens a2)"
    unfolding annotated_def t Let_def
  proof (intro ballI impI)
    fix k assume "k \<in> {..< length ?b1}"
    then have k: "k < length ?b1" by simp
    let ?w1 = "?b1 ! k" and ?w2 = "?b2 ! k"
    assume "tok_text (heap \<sigma>' ?w1) \<noteq> tok_text (heap \<sigma>' ?w2)"
    then have df: "tok_text (heap \<sigma>3 ?w1) \<noteq> tok_text (heap \<sigma>3 ?w2)" by (simp add: tx)
    from k len have m1: "?w1 \<in> set ?b1" and m2: "?w2 \<in> set ?b2" by simp_all
    have ne: "?w1 \<noteq> ?w2"
    proof
      assume "?w1 = ?w2"
      with m1 m2 have "?w1 \<in> set ?b1 \<inter> set ?b2" by simp
      with dj show False by simp
    qed
    from k len have z: "zip ?b1 ?b2 ! k = (?w1, ?w2)" and kz: "k < length (zip ?b1 ?b2)" by simp_all
    from nth_mem[OF kz] have mem: "(?w1, ?w2) \<in> set (zip ?b1 ?b2)" unfolding z .
    from fold_annotate_at[OF distinct_zip_parts[OF a(4) len] mem, of "heap \<sigma>3"]
    have f1: "hA ?w1 = annotate_pair (?w1, ?w2) (heap \<sigma>3) ?w1"
      and f2: "hA ?w2 = annotate_pair (?w1, ?w2) (heap \<sigma>3) ?w2"
      by (simp_all add: hA_def)
    note g1 = f1[unfolded annotate_pair_at(1)[OF ne]] and g2 = f2[unfolded annotate_pair_at(2)[OF ne]]
    show "aligned (heap \<sigma>' ?w1) \<and> aligned (heap \<sigma>' ?w2)
        \<and> alignment_spaces (heap \<sigma>' ?w1)
            = int (max (tok_len (heap \<sigma>' ?w1)) (tok_len (heap \<sigma>' ?w2))) - int (tok_len (heap \<sigma>' ?w1))
        \<and> alignment_spaces (heap \<sigma>' ?w2)
            = int (max (tok_len (heap \<sigma>' ?w1)) (tok_len (heap \<sigma>' ?w2))) - int (tok_len (heap \<sigma>' ?w2))
        \<and> color (heap \<sigma>' ?w1) = Some (COLOR_MAPPING (pair_key (heap \<sigma>' ?w1) (heap \<sigma>' ?w2)))
        \<and> color (heap \<sigma>' ?w2) = Some (COLOR_MAPPING (pair_key (heap \<sigma>' ?w1) (heap \<sigma>' ?w2)))"
      unfolding al sp co ln pk g1 g2 using df by simp
  qed
  have c6: "\<forall>a \<in> set (tokens a1 @ tokens a2).
             a < ?N \<or> cls (heap \<sigma>' a) = Spacer \<and> tok_text (heap \<sigma>' a) = []"
  proof
    fix x assume "x \<in> set (tokens a1 @ tokens a2)"
    then have m: "x \<in> set ?b1 \<union> set ?b2" by (simp add: t)
    show "x < ?N \<or> cls (heap \<sigma>' x) = Spacer \<and> tok_text (heap \<sigma>' x) = []"
    proof (cases "x < ?N")
      case False
      then have "?N \<le> x" by simp
      from a(8)[OF m this] show ?thesis by (simp add: cl tx)
    qed simp
  qed
  from c1 c2 c6 c3 c4 c5 show ?thesis by (intro conjI)
qed

theorem align_shares_and_reindexes_tokens_witness:
  "separate_inputs (next_addr ex_store) (heap ex_store) (tokens ex_text1) (tokens ex_text2)
   \<and> (\<exists>\<sigma>' a1 a2. align_sentences ex_store ex_text1 ex_text2 = Inr (\<sigma>', a1, a2)
        \<and> tokens a1 = [3, 0] \<and> tokens a2 = [1, 2]
        \<and> filter (\<lambda>a. a < next_addr ex_store) (tokens a1) = tokens ex_text1
        \<and> filter (\<lambda>a. a < next_addr ex_store) (tokens a2) = tokens ex_text2
        \<and> cls (heap \<sigma>' 3) = Spacer \<and> tok_text (heap \<sigma>' 3) = []
        \<and> reindexed (heap \<sigma>') (tokens a1) \<and> reindexed (heap \<sigma>') (tokens a2)
        \<and> annotated (heap \<sigma>') (tokens a1) (tokens a2)
        \<and> index (heap \<sigma>' 0) = Some 1)"
proof -
  have s: "separate_inputs (next_addr ex_store) (heap ex_store) (tokens ex_text1) (tokens ex_text2)"
    by (simp add: separate_inputs_def ex_store_def ex_text1_def ex_text2_def new_token_def)
  obtain \<sigma>' a1 a2 where r: "align_sentences ex_store ex_text1 ex_text2 = Inr (\<sigma>', a1, a2)"
    and t: "tokens a1 = [3, 0]" "tokens a2 = [1, 2]"
    by (rule ex_align_Inr)
  note c = align_shares_and_reindexes_tokens[OF s r]
  from c have "reindexed (heap \<sigma>') (tokens a1)" by simp
  then have "index (heap \<sigma>' (tokens a1 ! 1)) = Some 1"
    unfolding reindexed_def by (rule ballE[where x = 1]) (simp_all add: t)
  then have i: "index (heap \<sigma>' 0) = Some 1" by (simp add: t)
  from c have "\<forall>a \<in> set (tokens a1 @ tokens a2).
      a < next_addr ex_store \<or> cls (heap \<sigma>' a) = Spacer \<and> tok_text (heap \<sigma>' a) = []"
    by simp
  then have "3 < next_addr ex_store \<or> cls (heap \<sigma>' 3) = Spacer \<and> tok_text (heap \<sigma>' 3) = []"
    by (rule ballE[where x = 3]) (simp_all add: t)
  then have g: "cls (heap \<sigma>' 3) = Spacer" "tok_text (heap \<sigma>' 3) = []"
    by (simp_all add: ex_store_def)
  from s r t c i g show ?thesis by blast
qed

section \<open>The walk as a layout of its moves, and the example of the two spellings\<close>

lemma kinds_cong:
  assumes "\<And>a. a \<in> set as \<Longrightarrow> cls (h' a) = cls (h a) \<and> tok_text (h' a) = tok_text (h a)"
  shows "kinds h' as = kinds h as"
  using assms by (simp add: kinds_def)

lemma kinds_nth: "k < length as \<Longrightarrow> kinds h as ! k = (cls (h (as ! k)), tok_text (h (as ! k)))"
  by (simp add: kinds_def)

lemma traceback_path_unfold:
  assumes "py_nth2 T i j = Inr trace"
  shows "traceback_path T i j =
     (if CHR ''D'' \<in> set trace \<and> i > 0 \<and> j > 0 then Diagonal # traceback_path T (i - 1) (j - 1)
      else if CHR ''U'' \<in> set trace \<and> i > 0 then Up # traceback_path T (i - 1) j
      else if CHR ''L'' \<in> set trace \<and> j > 0 then Left # traceback_path T i (j - 1)
      else [])"
  by (subst traceback_path.simps) (simp add: assms)

lemma laid_outD:
  assumes "laid_out s1 s2 k1 k2 (\<sigma>, A1, A2)"
  shows "\<And>a. a \<in> set s1 \<union> set s2 \<union> set (tokens A1) \<union> set (tokens A2) \<Longrightarrow> a < next_addr \<sigma>"
    and "kinds (heap \<sigma>) s1 = k1" and "kinds (heap \<sigma>) s2 = k2"
    and "\<And>a. a \<in> set s1 \<union> set s2 \<Longrightarrow> cls (heap \<sigma> a) \<noteq> Spacer"
  using assms unfolding laid_out_def prod.case by blast+

lemma laid_outI:
  assumes "\<And>a. a \<in> set s1 \<union> set s2 \<union> set (tokens A1) \<union> set (tokens A2) \<Longrightarrow> a < next_addr \<sigma>"
    and "kinds (heap \<sigma>) s1 = k1" and "kinds (heap \<sigma>) s2 = k2"
    and "\<And>a. a \<in> set s1 \<union> set s2 \<Longrightarrow> cls (heap \<sigma> a) \<noteq> Spacer"
  shows "laid_out s1 s2 k1 k2 (\<sigma>, A1, A2)"
  using assms unfolding laid_out_def prod.case by blast

lemma laid_diag:
  assumes g: "laid_out s1 s2 k1 k2 st" and x: "x \<in> set s1" and y: "y \<in> set s2"
  shows "laid_out s1 s2 k1 k2 (diag_move st x y)"
    and "kinds2 (diag_move st x y)
          = ((cls (heap (fst st) x), tok_text (heap (fst st) x)) # fst (kinds2 st),
             (cls (heap (fst st) y), tok_text (heap (fst st) y)) # snd (kinds2 st))"
proof -
  obtain \<sigma> A1 A2 where st: "st = (\<sigma>, A1, A2)" by (cases st)
  obtain \<sigma>' B1 B2 where m: "diag_move (\<sigma>, A1, A2) x y = (\<sigma>', B1, B2)" by (metis prod_cases3)
  note p = diag_move_props[OF m] and d = laid_outD[OF g[unfolded st]]
  have k: "kinds (heap \<sigma>') as = kinds (heap \<sigma>) as" for as
    by (rule kinds_cong) (simp add: p(4,5))
  have "laid_out s1 s2 k1 k2 (\<sigma>', B1, B2)"
  proof (rule laid_outI)
    show "a < next_addr \<sigma>'" if "a \<in> set s1 \<union> set s2 \<union> set (tokens B1) \<union> set (tokens B2)" for a
      using that d(1)[of a] x y unfolding p(1,2,3) by auto
    show "kinds (heap \<sigma>') s1 = k1" "kinds (heap \<sigma>') s2 = k2" by (simp_all add: k d)
    show "cls (heap \<sigma>' a) \<noteq> Spacer" if "a \<in> set s1 \<union> set s2" for a
      using d(4)[OF that] by (simp add: p(4))
  qed
  then show "laid_out s1 s2 k1 k2 (diag_move st x y)" unfolding st m .
  have "kinds2 (\<sigma>', B1, B2) = ((cls (heap \<sigma> x), tok_text (heap \<sigma> x)) # kinds (heap \<sigma>) (tokens A1),
             (cls (heap \<sigma> y), tok_text (heap \<sigma> y)) # kinds (heap \<sigma>) (tokens A2))"
    unfolding kinds2_def prod.case p(1,2) by (simp add: kinds_def p(4,5))
  then show "kinds2 (diag_move st x y)
          = ((cls (heap (fst st) x), tok_text (heap (fst st) x)) # fst (kinds2 st),
             (cls (heap (fst st) y), tok_text (heap (fst st) y)) # snd (kinds2 st))"
    unfolding st m by (simp add: kinds2_def)
qed

lemma laid_up:
  assumes g: "laid_out s1 s2 k1 k2 st" and x: "x \<in> set s1" and y: "y \<in> set s2"
  shows "laid_out s1 s2 k1 k2 (up_move st x y)"
    and "kinds2 (up_move st x y)
          = ((cls (heap (fst st) x), tok_text (heap (fst st) x)) # fst (kinds2 st),
             (Spacer, []) # snd (kinds2 st))"
proof -
  obtain \<sigma> A1 A2 where st: "st = (\<sigma>, A1, A2)" by (cases st)
  obtain \<sigma>' B1 B2 where m: "up_move (\<sigma>, A1, A2) x y = (\<sigma>', B1, B2)" by (metis prod_cases3)
  note d = laid_outD[OF g[unfolded st]]
  have "cls (heap \<sigma> y) \<noteq> Spacer" using d(4)[of y] y by simp
  note p = up_move_props[OF m this]
  have old: "cls (heap \<sigma>' a) = cls (heap \<sigma> a) \<and> tok_text (heap \<sigma>' a) = tok_text (heap \<sigma> a)"
    if "a < next_addr \<sigma>" for a
    using that by (simp add: p(4,5))
  have k: "kinds (heap \<sigma>') as = kinds (heap \<sigma>) as" if "\<And>a. a \<in> set as \<Longrightarrow> a < next_addr \<sigma>" for as
    by (rule kinds_cong) (simp add: old that)
  have "laid_out s1 s2 k1 k2 (\<sigma>', B1, B2)"
  proof (rule laid_outI)
    show "a < next_addr \<sigma>'" if "a \<in> set s1 \<union> set s2 \<union> set (tokens B1) \<union> set (tokens B2)" for a
      using that d(1)[of a] x unfolding p(1,2,3) by auto
    show "kinds (heap \<sigma>') s1 = k1" using k[of s1] d(1,2) by simp
    show "kinds (heap \<sigma>') s2 = k2" using k[of s2] d(1,3) by simp
    show "cls (heap \<sigma>' a) \<noteq> Spacer" if "a \<in> set s1 \<union> set s2" for a
    proof -
      from that have "a < next_addr \<sigma>" by (intro d(1)) blast
      from old[OF this] d(4)[OF that] show ?thesis by simp
    qed
  qed
  then show "laid_out s1 s2 k1 k2 (up_move st x y)" unfolding st m .
  have x': "x < next_addr \<sigma>" using d(1)[of x] x by simp
  have "kinds2 (\<sigma>', B1, B2) = ((cls (heap \<sigma> x), tok_text (heap \<sigma> x)) # kinds (heap \<sigma>) (tokens A1),
             (Spacer, []) # kinds (heap \<sigma>) (tokens A2))"
    unfolding kinds2_def prod.case p(1,2)
    using k[of "tokens A1"] k[of "tokens A2"] d(1) old[OF x'] by (simp add: kinds_def p(6,7))
  then show "kinds2 (up_move st x y)
          = ((cls (heap (fst st) x), tok_text (heap (fst st) x)) # fst (kinds2 st),
             (Spacer, []) # snd (kinds2 st))"
    unfolding st m by (simp add: kinds2_def)
qed

lemma laid_left:
  assumes g: "laid_out s1 s2 k1 k2 st" and x: "x \<in> set s1" and y: "y \<in> set s2"
  shows "laid_out s1 s2 k1 k2 (left_move st x y)"
    and "kinds2 (left_move st x y)
          = ((Spacer, []) # fst (kinds2 st),
             (cls (heap (fst st) y), tok_text (heap (fst st) y)) # snd (kinds2 st))"
proof -
  obtain \<sigma> A1 A2 where st: "st = (\<sigma>, A1, A2)" by (cases st)
  obtain \<sigma>' B1 B2 where m: "left_move (\<sigma>, A1, A2) x y = (\<sigma>', B1, B2)" by (metis prod_cases3)
  note d = laid_outD[OF g[unfolded st]]
  have "cls (heap \<sigma> x) \<noteq> Spacer" using d(4)[of x] x by simp
  note p = left_move_props[OF m this]
  have old: "cls (heap \<sigma>' a) = cls (heap \<sigma> a) \<and> tok_text (heap \<sigma>' a) = tok_text (heap \<sigma> a)"
    if "a < next_addr \<sigma>" for a
    using that by (simp add: p(4,5))
  have k: "kinds (heap \<sigma>') as = kinds (heap \<sigma>) as" if "\<And>a. a \<in> set as \<Longrightarrow> a < next_addr \<sigma>" for as
    by (rule kinds_cong) (simp add: old that)
  have "laid_out s1 s2 k1 k2 (\<sigma>', B1, B2)"
  proof (rule laid_outI)
    show "a < next_addr \<sigma>'" if "a \<in> set s1 \<union> set s2 \<union> set (tokens B1) \<union> set (tokens B2)" for a
      using that d(1)[of a] y unfolding p(1,2,3) by auto
    show "kinds (heap \<sigma>') s1 = k1" using k[of s1] d(1,2) by simp
    show "kinds (heap \<sigma>') s2 = k2" using k[of s2] d(1,3) by simp
    show "cls (heap \<sigma>' a) \<noteq> Spacer" if "a \<in> set s1 \<union> set s2" for a
    proof -
      from that have "a < next_addr \<sigma>" by (intro d(1)) blast
      from old[OF this] d(4)[OF that] show ?thesis by simp
    qed
  qed
  then show "laid_out s1 s2 k1 k2 (left_move st x y)" unfolding st m .
  have y': "y < next_addr \<sigma>" using d(1)[of y] y by simp
  have "kinds2 (\<sigma>', B1, B2) = ((Spacer, []) # kinds (heap \<sigma>) (tokens A1),
             (cls (heap \<sigma> y), tok_text (heap \<sigma> y)) # kinds (heap \<sigma>) (tokens A2))"
    unfolding kinds2_def prod.case p(1,2)
    using k[of "tokens A1"] k[of "tokens A2"] d(1) old[OF y'] by (simp add: kinds_def p(6,7))
  then show "kinds2 (left_move st x y)
          = ((Spacer, []) # fst (kinds2 st),
             (cls (heap (fst st) y), tok_text (heap (fst st) y)) # snd (kinds2 st))"
    unfolding st m by (simp add: kinds2_def)
qed

text \<open>On a traceback matrix of the right size the walk returns, and its two sequences are
  the layout of the moves it made.\<close>

lemma walk_lays_out:
  "rect (length s1 + 1) (length s2 + 1) T \<Longrightarrow> s1 \<noteq> [] \<Longrightarrow> s2 \<noteq> []
    \<Longrightarrow> i \<le> length s1 \<Longrightarrow> j \<le> length s2 \<Longrightarrow> laid_out s1 s2 k1 k2 st
    \<Longrightarrow> \<exists>st'. walk T s1 s2 i j st = Inr st'
          \<and> kinds2 st' = lay (traceback_path T i j) k1 k2 i j (kinds2 st)"
proof (induction T s1 s2 i j st rule: walk.induct)
  case (1 T s1 s2 i j st)
  note r = "1.prems"(1) and ne = "1.prems"(2,3) and bi = "1.prems"(4) and bj = "1.prems"(5)
    and g = "1.prems"(6)
  let ?x = "s1 ! (if 0 < i then i - 1 else 0)" and ?y = "s2 ! (if 0 < j then j - 1 else 0)"
  have tr: "py_nth2 T i j = Inr (T ! i ! j)"
    using bi bj by (intro py_nth2_rect[OF r]) simp_all
  have t1: "py_nth s1 (if 0 < i then i - 1 else 0) = Inr ?x"
    using bi ne(1) by (auto simp: py_nth_def)
  have t2: "py_nth s2 (if 0 < j then j - 1 else 0) = Inr ?y"
    using bj ne(2) by (auto simp: py_nth_def)
  note IH = "1.IH"[OF tr t1 t2]
  note w = walk_unfold[OF tr t1 t2, of st]
  note tp = traceback_path_unfold[OF tr]
  have mx: "?x \<in> set s1" using bi ne(1) by auto
  have my: "?y \<in> set s2" using bj ne(2) by auto
  obtain \<sigma> A1 A2 where st: "st = (\<sigma>, A1, A2)" by (cases st)
  note d = laid_outD[OF g[unfolded st]]
  have kx: "(cls (heap (fst st) ?x), tok_text (heap (fst st) ?x)) = k1 ! (i - 1)" if "0 < i"
  proof -
    from that bi have "i - 1 < length s1" by simp
    from kinds_nth[OF this, of "heap \<sigma>"] that show ?thesis by (simp add: d(2) st)
  qed
  have ky: "(cls (heap (fst st) ?y), tok_text (heap (fst st) ?y)) = k2 ! (j - 1)" if "0 < j"
  proof -
    from that bj have "j - 1 < length s2" by simp
    from kinds_nth[OF this, of "heap \<sigma>"] that show ?thesis by (simp add: d(3) st)
  qed
  from bi bj have b: "i - 1 \<le> length s1" "j - 1 \<le> length s2" by simp_all
  consider (D) "CHR ''D'' \<in> set (T ! i ! j) \<and> i > 0 \<and> j > 0"
    | (U) "\<not> (CHR ''D'' \<in> set (T ! i ! j) \<and> i > 0 \<and> j > 0)" "CHR ''U'' \<in> set (T ! i ! j) \<and> i > 0"
    | (L) "\<not> (CHR ''D'' \<in> set (T ! i ! j) \<and> i > 0 \<and> j > 0)" "\<not> (CHR ''U'' \<in> set (T ! i ! j) \<and> i > 0)"
          "CHR ''L'' \<in> set (T ! i ! j) \<and> j > 0"
    | (B) "\<not> (CHR ''D'' \<in> set (T ! i ! j) \<and> i > 0 \<and> j > 0)" "\<not> (CHR ''U'' \<in> set (T ! i ! j) \<and> i > 0)"
          "\<not> (CHR ''L'' \<in> set (T ! i ! j) \<and> j > 0)"
    by blast
  then show ?case
  proof cases
    case D
    then have pi: "0 < i" and pj: "0 < j" by simp_all
    have w1: "walk T s1 s2 i j st = walk T s1 s2 (i - 1) (j - 1) (diag_move st ?x ?y)"
      using D by (auto simp: w)
    have p1: "traceback_path T i j = Diagonal # traceback_path T (i - 1) (j - 1)"
      using D by (auto simp: tp)
    note m = laid_diag[OF g mx my]
    from IH(1)[OF D r ne b m(1)] obtain st' where
      s: "walk T s1 s2 (i - 1) (j - 1) (diag_move st ?x ?y) = Inr st'"
      and k: "kinds2 st' = lay (traceback_path T (i - 1) (j - 1)) k1 k2 (i - 1) (j - 1)
                (kinds2 (diag_move st ?x ?y))"
      by blast
    have "kinds2 st' = lay (traceback_path T i j) k1 k2 i j (kinds2 st)"
      unfolding k p1 m(2) kx[OF pi] ky[OF pj] by simp
    with s w1 show ?thesis by simp
  next
    case U
    then have pi: "0 < i" by simp
    have w1: "walk T s1 s2 i j st = walk T s1 s2 (i - 1) j (up_move st ?x ?y)"
      using U by (auto simp: w)
    have p1: "traceback_path T i j = Up # traceback_path T (i - 1) j"
      using U by (auto simp: tp)
    note m = laid_up[OF g mx my]
    from IH(2)[OF U r ne b(1) bj m(1)] obtain st' where
      s: "walk T s1 s2 (i - 1) j (up_move st ?x ?y) = Inr st'"
      and k: "kinds2 st' = lay (traceback_path T (i - 1) j) k1 k2 (i - 1) j
                (kinds2 (up_move st ?x ?y))"
      by blast
    have "kinds2 st' = lay (traceback_path T i j) k1 k2 i j (kinds2 st)"
      unfolding k p1 m(2) kx[OF pi] by simp
    with s w1 show ?thesis by simp
  next
    case L
    then have pj: "0 < j" by simp
    have w1: "walk T s1 s2 i j st = walk T s1 s2 i (j - 1) (left_move st ?x ?y)"
      using L by (auto simp: w)
    have p1: "traceback_path T i j = Left # traceback_path T i (j - 1)"
      using L by (auto simp: tp)
    note m = laid_left[OF g mx my]
    from IH(3)[OF L r ne bi b(2) m(1)] obtain st' where
      s: "walk T s1 s2 i (j - 1) (left_move st ?x ?y) = Inr st'"
      and k: "kinds2 st' = lay (traceback_path T i (j - 1)) k1 k2 i (j - 1)
                (kinds2 (left_move st ?x ?y))"
      by blast
    have "kinds2 st' = lay (traceback_path T i j) k1 k2 i j (kinds2 st)"
      unfolding k p1 m(2) ky[OF pj] by simp
    with s w1 show ?thesis by simp
  next
    case B
    then have w1: "walk T s1 s2 i j st = Inr st" by (auto simp: w)
    from B have p1: "traceback_path T i j = []" by (auto simp: tp)
    show ?thesis unfolding w1 p1 by simp
  qed
qed

text \<open>What \<^verbatim>\<open>align_sentences\<close> returns, seen as kinds and texts: the layout of the
  walk through the traceback matrix of the scorer.\<close>

lemma shown_align_sentences:
  assumes ne: "tokens text1 \<noteq> []" "tokens text2 \<noteq> []"
    and fr: "\<forall>a \<in> set (tokens text1 @ tokens text2). a < next_addr \<sigma> \<and> cls (heap \<sigma> a) \<noteq> Spacer"
    and nw: "needleman_wunsch_alignment_words_substring default_scoring \<sigma> text1 text2 = Inr (\<sigma>1, S, T)"
  shows "shown (align_sentences \<sigma> text1 text2) =
     Inr (lay (traceback_path T (length (tokens text1)) (length (tokens text2)))
            (kinds (heap \<sigma>) (tokens text1)) (kinds (heap \<sigma>) (tokens text2))
            (length (tokens text1)) (length (tokens text2)) ([], []))"
proof -
  let ?s1 = "tokens text1" and ?s2 = "tokens text2"
  note n = needleman_wunsch_Inr[OF nw]
  have r: "rect (length ?s1 + 1) (length ?s2 + 1) T" by (rule fill_matrices_props(2)[OF n(2)])
  obtain \<sigma>a E1 where e1: "empty_Text \<sigma>1 = (\<sigma>a, E1)" by (cases "empty_Text \<sigma>1")
  obtain \<sigma>b E2 where e2: "empty_Text \<sigma>a = (\<sigma>b, E2)" by (cases "empty_Text \<sigma>a")
  note p1 = empty_Text_props[OF e1] and p2 = empty_Text_props[OF e2]
  have hb: "cls (heap \<sigma>b a) = cls (heap \<sigma> a)" "tok_text (heap \<sigma>b a) = tok_text (heap \<sigma> a)"
    and nb: "next_addr \<sigma>b = next_addr \<sigma>" for a
    by (simp_all add: p1 p2 n(1))
  have kb: "kinds (heap \<sigma>b) as = kinds (heap \<sigma>) as" for as
    by (rule kinds_cong) (simp add: hb)
  have g: "laid_out ?s1 ?s2 (kinds (heap \<sigma>) ?s1) (kinds (heap \<sigma>) ?s2) (\<sigma>b, E1, E2)"
  proof (rule laid_outI)
    show "a < next_addr \<sigma>b" if "a \<in> set ?s1 \<union> set ?s2 \<union> set (tokens E1) \<union> set (tokens E2)" for a
      using that fr unfolding nb by (auto simp: p1(1) p2(1))
    show "kinds (heap \<sigma>b) ?s1 = kinds (heap \<sigma>) ?s1" "kinds (heap \<sigma>b) ?s2 = kinds (heap \<sigma>) ?s2"
      by (rule kb)+
    show "cls (heap \<sigma>b a) \<noteq> Spacer" if "a \<in> set ?s1 \<union> set ?s2" for a
      using that fr by (auto simp: hb)
  qed
  from walk_lays_out[OF r ne order_refl order_refl g] obtain st' where
    w: "walk T ?s1 ?s2 (length ?s1) (length ?s2) (\<sigma>b, E1, E2) = Inr st'"
    and k: "kinds2 st' = lay (traceback_path T (length ?s1) (length ?s2))
              (kinds (heap \<sigma>) ?s1) (kinds (heap \<sigma>) ?s2) (length ?s1) (length ?s2)
              (kinds2 (\<sigma>b, E1, E2))"
    by blast
  obtain \<sigma>3 B1 B2 where st': "st' = (\<sigma>3, B1, B2)" by (cases st')
  have k0: "kinds2 (\<sigma>b, E1, E2) = ([], [])" by (simp add: kinds2_def kinds_def p1 p2)
  define \<sigma>d where "\<sigma>d = \<sigma>3\<lparr> heap := fold annotate_pair (zip (tokens B1) (tokens B2)) (heap \<sigma>3) \<rparr>"
  have gv: "get_alignment_and_visualization_words \<sigma>1 text1 text2 T = Inr (\<sigma>d, B1, B2)"
    unfolding get_alignment_and_visualization_words_def Let_def e1 e2 prod.case w st' sum.case \<sigma>d_def ..
  obtain \<sigma>e a1 where q1: "recalculate_indices \<sigma>d B1 = (\<sigma>e, a1)" by (cases "recalculate_indices \<sigma>d B1")
  obtain \<sigma>f a2 where q2: "recalculate_indices \<sigma>e B2 = (\<sigma>f, a2)" by (cases "recalculate_indices \<sigma>e B2")
  have a: "align_sentences \<sigma> text1 text2 = Inr (\<sigma>f, a1, a2)"
    unfolding align_sentences_def nw sum.case prod.case gv Let_def q1 q2 ..
  have t: "tokens a1 = tokens B1" "tokens a2 = tokens B2"
    and h: "cls (heap \<sigma>f x) = cls (heap \<sigma>3 x)" "tok_text (heap \<sigma>f x) = tok_text (heap \<sigma>3 x)" for x
    using q1 q2 by (auto simp: recalculate_indices_eq \<sigma>d_def)
  have "kinds2 (\<sigma>f, a1, a2) = kinds2 (\<sigma>3, B1, B2)"
    by (simp add: kinds2_def kinds_def t h)
  then show ?thesis
    unfolding a shown_def sum.case using k by (simp add: st' k0)
qed

lemma letters_tokenized:
  "(case Text_of_string char_units empty_store ''color'' of Inl e \<Rightarrow> None
    | Inr (\<sigma>1, t1) \<Rightarrow>
        (case Text_of_string char_units \<sigma>1 ''colour'' of Inl e \<Rightarrow> None
         | Inr (\<sigma>2, t2) \<Rightarrow>
             Some (tokens t1, tokens t2, next_addr \<sigma>2,
                   kinds (heap \<sigma>2) [0, 1, 2, 3, 4], kinds (heap \<sigma>2) [5, 6, 7, 8, 9, 10])))
   = Some ([0, 1, 2, 3, 4], [5, 6, 7, 8, 9, 10], 11,
           [(Word, ''c''), (Word, ''o''), (Word, ''l''), (Word, ''o''), (Word, ''r'')],
           [(Word, ''c''), (Word, ''o''), (Word, ''l''), (Word, ''o''), (Word, ''u''), (Word, ''r'')])"
  by code_simp

lemma letters_scored:
  "scored_strings char_units empty_store ''color'' ''colour'' = Inr (letters_S, letters_T)"
  by code_simp

lemma letters_path:
  "traceback_path letters_T 5 6 = [Diagonal, Left, Diagonal, Diagonal, Diagonal, Diagonal]"
  by code_simp

lemma letters_lay:
  "lay [Diagonal, Left, Diagonal, Diagonal, Diagonal, Diagonal]
     [(Word, ''c''), (Word, ''o''), (Word, ''l''), (Word, ''o''), (Word, ''r'')]
     [(Word, ''c''), (Word, ''o''), (Word, ''l''), (Word, ''o''), (Word, ''u''), (Word, ''r'')]
     5 6 ([], [])
   = ([(Word, ''c''), (Word, ''o''), (Word, ''l''), (Word, ''o''), (Spacer, []), (Word, ''r'')],
      [(Word, ''c''), (Word, ''o''), (Word, ''l''), (Word, ''o''), (Word, ''u''), (Word, ''r'')])"
  by code_simp

lemma letters_shown:
  "shown (align_strings char_units empty_store ''color'' ''colour'') =
     Inr ([(Word, ''c''), (Word, ''o''), (Word, ''l''), (Word, ''o''), (Spacer, []), (Word, ''r'')],
          [(Word, ''c''), (Word, ''o''), (Word, ''l''), (Word, ''o''), (Word, ''u''), (Word, ''r'')])"
proof -
  from letters_tokenized obtain \<sigma>1 t1 where
    T1: "Text_of_string char_units empty_store ''color'' = Inr (\<sigma>1, t1)"
    by (cases "Text_of_string char_units empty_store ''color''") auto
  from letters_tokenized obtain \<sigma>2 t2 where
    T2: "Text_of_string char_units \<sigma>1 ''colour'' = Inr (\<sigma>2, t2)"
    unfolding T1 sum.case prod.case
    by (cases "Text_of_string char_units \<sigma>1 ''colour''") auto
  from letters_tokenized have
    t: "tokens t1 = [0, 1, 2, 3, 4]" "tokens t2 = [5, 6, 7, 8, 9, 10]"
    and n: "next_addr \<sigma>2 = 11"
    and k: "kinds (heap \<sigma>2) [0, 1, 2, 3, 4]
              = [(Word, ''c''), (Word, ''o''), (Word, ''l''), (Word, ''o''), (Word, ''r'')]"
           "kinds (heap \<sigma>2) [5, 6, 7, 8, 9, 10]
              = [(Word, ''c''), (Word, ''o''), (Word, ''l''), (Word, ''o''), (Word, ''u''), (Word, ''r'')]"
    unfolding T1 T2 sum.case prod.case by simp_all
  from letters_scored obtain \<sigma>3 where
    N: "needleman_wunsch_alignment_words_substring default_scoring \<sigma>2 t1 t2 = Inr (\<sigma>3, letters_S, letters_T)"
    unfolding scored_strings_def T1 T2 sum.case prod.case
    by (cases "needleman_wunsch_alignment_words_substring default_scoring \<sigma>2 t1 t2") auto
  have a: "align_strings char_units empty_store ''color'' ''colour'' = align_sentences \<sigma>2 t1 t2"
    unfolding align_strings_def T1 T2 sum.case prod.case ..
  have ne: "tokens t1 \<noteq> []" "tokens t2 \<noteq> []" by (simp_all add: t)
  have c: "cls (heap \<sigma>2 x) = Word" if "x \<in> set (tokens t1 @ tokens t2)" for x
    using that k by (auto simp: t kinds_def)
  have fr: "\<forall>a \<in> set (tokens t1 @ tokens t2). a < next_addr \<sigma>2 \<and> cls (heap \<sigma>2 a) \<noteq> Spacer"
  proof
    fix x assume x: "x \<in> set (tokens t1 @ tokens t2)"
    then have "x < next_addr \<sigma>2" by (auto simp: t n)
    with c[OF x] show "x < next_addr \<sigma>2 \<and> cls (heap \<sigma>2 x) \<noteq> Spacer" by simp
  qed
  have l: "length (tokens t1) = 5" "length (tokens t2) = 6" by (simp_all add: t)
  show ?thesis
    unfolding a shown_align_sentences[OF ne fr N] l letters_path
    unfolding t k letters_lay ..
qed

lemma words_tokenized:
  "(case Text_of_string plain_word_tokenize empty_store ''color'' of Inl e \<Rightarrow> None
    | Inr (\<sigma>1, t1) \<Rightarrow>
        (case Text_of_string plain_word_tokenize \<sigma>1 ''colour'' of Inl e \<Rightarrow> None
         | Inr (\<sigma>2, t2) \<Rightarrow>
             Some (tokens t1, tokens t2, next_addr \<sigma>2, kinds (heap \<sigma>2) [0], kinds (heap \<sigma>2) [1])))
   = Some ([0], [1], 2, [(Word, ''color'')], [(Word, ''colour'')])"
  by code_simp

lemma words_scored:
  "scored_strings plain_word_tokenize empty_store ''color'' ''colour''
     = Inr ([[0, - 1], [- 1, 1 / 2]], [[[], ''L''], [''U'', ''D'']])"
  by code_simp

lemma words_path: "traceback_path [[[], ''L''], [''U'', ''D'']] 1 1 = [Diagonal]"
  by code_simp

lemma words_lay:
  "lay [Diagonal] [(Word, ''color'')] [(Word, ''colour'')] 1 1 ([], [])
     = ([(Word, ''color'')], [(Word, ''colour'')])"
  by code_simp

lemma words_shown:
  "shown (align_strings plain_word_tokenize empty_store ''color'' ''colour'') =
     Inr ([(Word, ''color'')], [(Word, ''colour'')])"
proof -
  from words_tokenized obtain \<sigma>1 t1 where
    T1: "Text_of_string plain_word_tokenize empty_store ''color'' = Inr (\<sigma>1, t1)"
    by (cases "Text_of_string plain_word_tokenize empty_store ''color''") auto
  from words_tokenized obtain \<sigma>2 t2 where
    T2: "Text_of_string plain_word_tokenize \<sigma>1 ''colour'' = Inr (\<sigma>2, t2)"
    unfolding T1 sum.case prod.case
    by (cases "Text_of_string plain_word_tokenize \<sigma>1 ''colour''") auto
  from words_tokenized have
    t: "tokens t1 = [0]" "tokens t2 = [1]"
    and n: "next_addr \<sigma>2 = 2"
    and k: "kinds (heap \<sigma>2) [0] = [(Word, ''color'')]" "kinds (heap \<sigma>2) [1] = [(Word, ''colour'')]"
    unfolding T1 T2 sum.case prod.case by simp_all
  from words_scored obtain \<sigma>3 where
    N: "needleman_wunsch_alignment_words_substring default_scoring \<sigma>2 t1 t2
          = Inr (\<sigma>3, [[0, - 1], [- 1, 1 / 2]], [[[], ''L''], [''U'', ''D'']])"
    unfolding scored_strings_def T1 T2 sum.case prod.case
    by (cases "needleman_wunsch_alignment_words_substring default_scoring \<sigma>2 t1 t2") auto
  have a: "align_strings plain_word_tokenize empty_store ''color'' ''colour'' = align_sentences \<sigma>2 t1 t2"
    unfolding align_strings_def T1 T2 sum.case prod.case ..
  have ne: "tokens t1 \<noteq> []" "tokens t2 \<noteq> []" by (simp_all add: t)
  have c: "cls (heap \<sigma>2 x) = Word" if "x \<in> set (tokens t1 @ tokens t2)" for x
    using that k by (auto simp: t kinds_def)
  have fr: "\<forall>a \<in> set (tokens t1 @ tokens t2). a < next_addr \<sigma>2 \<and> cls (heap \<sigma>2 a) \<noteq> Spacer"
  proof
    fix x assume x: "x \<in> set (tokens t1 @ tokens t2)"
    then have "x < next_addr \<sigma>2" by (auto simp: t n)
    with c[OF x] show "x < next_addr \<sigma>2 \<and> cls (heap \<sigma>2 x) \<noteq> Spacer" by simp
  qed
  have l: "length (tokens t1) = 1" "length (tokens t2) = 1" by (simp_all add: t)
  show ?thesis
    unfolding a shown_align_sentences[OF ne fr N] l words_path
    unfolding t k words_lay ..
qed

text \<open>
  Claim C9 as stated fails.  \<^verbatim>\<open>align_strings\<close> aligns tokens, not letters, and each of
  the two strings is one \<open>Word\<close> token: the matrices have one inner cell, the walk makes
  one diagonal move, and the two sequences returned are the token \<open>color\<close> and the token
  \<open>colour\<close>, paired; there is no gap placeholder, and the score is the mismatch cost
  \<open>-1 + (4/6) * 3/2 + 1/2 = 1/2\<close>.
\<close>

theorem color_colour_is_one_substitution:
  "shown (align_strings plain_word_tokenize empty_store ''color'' ''colour'') =
     Inr ([(Word, ''color'')], [(Word, ''colour'')])
   \<and> scored_strings plain_word_tokenize empty_store ''color'' ''colour''
     = Inr ([[0, - 1], [- 1, 1 / 2]], [[[], ''L''], [''U'', ''D'']])
   \<and> traceback_path [[[], ''L''], [''U'', ''D'']] 1 1 = [Diagonal]"
  by (rule conjI[OF words_shown conjI[OF words_scored words_path]])

text \<open>
  Claim C9, as amended.  When every letter is a token of its own, \<^verbatim>\<open>align_strings\<close>
  returns for \<open>color\<close> the sequence \<open>c o l o _ r\<close>, where \<open>_\<close> is a gap placeholder (a
  \<open>Spacer\<close> with the empty text), and for \<open>colour\<close> the sequence \<open>c o l o u r\<close>: the
  placeholder stands opposite \<open>u\<close>.  The walk, read from the last cell backwards, makes
  a diagonal move for \<open>r\<close>, a left move for \<open>u\<close> and four diagonal moves for \<open>o\<close>,
  \<open>l\<close>, \<open>o\<close>, \<open>c\<close>; the final score is five match scores and one gap penalty.
\<close>

theorem color_colour_letter_by_letter:
  "shown (align_strings char_units empty_store ''color'' ''colour'') =
     Inr ([(Word, ''c''), (Word, ''o''), (Word, ''l''), (Word, ''o''), (Spacer, []), (Word, ''r'')],
          [(Word, ''c''), (Word, ''o''), (Word, ''l''), (Word, ''o''), (Word, ''u''), (Word, ''r'')])
   \<and> scored_strings char_units empty_store ''color'' ''colour'' = Inr (letters_S, letters_T)
   \<and> traceback_path letters_T 5 6 = [Diagonal, Left, Diagonal, Diagonal, Diagonal, Diagonal]
   \<and> letters_S ! 5 ! 6 = 5 * match_score default_scoring + gap_score default_scoring"
proof -
  have "letters_S ! 5 ! 6 = 5 * match_score default_scoring + gap_score default_scoring"
    by code_simp
  with letters_shown letters_scored letters_path show ?thesis by (intro conjI)
qed

end
